theory Spec2Isabelle
  imports Main "HOL-Library.Sublist"
begin

section \<open>Text and the file store\<close>

text \<open>
  The four scripts read whole files into Python \<open>str\<close> values, transform them and write
  them back. A text is modelled as the list of its code points; the type \<open>char\<close> stands
  for the code points U+0000 to U+00FF. The file store maps a file name to the text that
  \<open>read()\<close> returns for it; a name outside the domain is a file that does not exist.
  A text that \<open>read()\<close> returns holds line feeds only, and the scripts add none but line
  feeds, so a file that a script wrote reads back as it was written. \<open>out\<close> is the list
  of lines printed so far.
\<close>

record world =
  files :: "string \<rightharpoonup> string"
  out :: "string list"

datatype error = FileNotFoundError string | ValueError | IndexError

text \<open>
  An unhandled exception stops a script where it is raised and keeps what was written
  before: \<open>Raised e w\<close> is the exception together with the world at that moment.
\<close>

datatype outcome = Returned world | Raised error world

fun world_of :: "outcome \<Rightarrow> world" where
  "world_of (Returned w) = w"
| "world_of (Raised e w) = w"

fun and_then :: "outcome \<Rightarrow> (world \<Rightarrow> outcome) \<Rightarrow> outcome" where
  "and_then (Returned w) k = k w"
| "and_then (Raised e w) k = Raised e w"

definition read_file :: "string \<Rightarrow> world \<Rightarrow> error + string" where
  \<comment> \<open>\<open>with open(name, 'r') as f: f.read()\<close>\<close>
  "read_file name w =
     (case files w name of None \<Rightarrow> Inl (FileNotFoundError name) | Some c \<Rightarrow> Inr c)"

definition write_file :: "string \<Rightarrow> string \<Rightarrow> world \<Rightarrow> world" where
  \<comment> \<open>\<open>with open(name, 'w') as f: f.write(c)\<close>: creates or replaces the file\<close>
  "write_file name c w = w\<lparr>files := (files w)(name \<mapsto> c)\<rparr>"

definition os_remove :: "string \<Rightarrow> world \<Rightarrow> outcome" where
  "os_remove name w =
     (case files w name of
        None \<Rightarrow> Raised (FileNotFoundError name) w
      | Some c \<Rightarrow> Returned (w\<lparr>files := (files w)(name := None)\<rparr>))"

definition os_path_exists :: "string \<Rightarrow> world \<Rightarrow> bool" where
  "os_path_exists name w = (files w name \<noteq> None)"

definition print :: "string \<Rightarrow> world \<Rightarrow> world" where
  "print line w = w\<lparr>out := out w @ [line]\<rparr>"

section \<open>Python string operations\<close>

text \<open>
  \<open>s.split(sep)\<close> cuts \<open>s\<close> at the non-overlapping occurrences of \<open>sep\<close>, found from
  left to right, and returns the pieces between them; an empty separator raises
  \<open>ValueError\<close>. \<open>split_pieces\<close> is the scan for a non-empty separator.
\<close>

function split_pieces :: "'a list \<Rightarrow> 'a list \<Rightarrow> 'a list list" where
  "split_pieces sep [] = [[]]"
| "split_pieces sep (c # cs) =
     (if sep \<noteq> [] \<and> prefix sep (c # cs)
      then [] # split_pieces sep (drop (length sep) (c # cs))
      else (case split_pieces sep cs of
              [] \<Rightarrow> [[c]]
            | p # ps \<Rightarrow> (c # p) # ps))"
  by pat_completeness auto
termination
  by (relation "measure (\<lambda>(sep, s). length s)") auto

definition str_split :: "string \<Rightarrow> string \<Rightarrow> error + string list" where
  "str_split s sep = (if sep = [] then Inl ValueError else Inr (split_pieces sep s))"

definition index0 :: "'a list \<Rightarrow> error + 'a" where
  \<comment> \<open>\<open>xs[0]\<close>\<close>
  "index0 xs = (case xs of [] \<Rightarrow> Inl IndexError | x # _ \<Rightarrow> Inr x)"

text \<open>
  \<open>s.replace(old, new)\<close> replaces the non-overlapping occurrences of \<open>old\<close>, found from
  left to right. With an empty \<open>old\<close>, Python puts \<open>new\<close> before every character and at
  the end.
\<close>

function replace_scan :: "'a list \<Rightarrow> 'a list \<Rightarrow> 'a list \<Rightarrow> 'a list" where
  "replace_scan old new [] = []"
| "replace_scan old new (c # cs) =
     (if old \<noteq> [] \<and> prefix old (c # cs)
      then new @ replace_scan old new (drop (length old) (c # cs))
      else c # replace_scan old new cs)"
  by pat_completeness auto
termination
  by (relation "measure (\<lambda>(old, new, s). length s)") auto

definition str_replace :: "string \<Rightarrow> string \<Rightarrow> string \<Rightarrow> string" where
  "str_replace s old new =
     (if old = [] then new @ concat (map (\<lambda>c. c # new) s) else replace_scan old new s)"

section \<open>combine\_utils.py\<close>

definition marker :: string where
  "marker = ''// Export all functions directly''"

definition combine_files :: "world \<Rightarrow> outcome" where
  "combine_files w =
     (case read_file ''Utils.gs'' w of
        Inl e \<Rightarrow> Raised e w
      | Inr utils_content \<Rightarrow>
     (case read_file ''Utils_Main.gs'' w of
        Inl e \<Rightarrow> Raised e w
      | Inr main_content \<Rightarrow>
     (case str_split main_content ''// Export all functions directly'' of
        Inl e \<Rightarrow> Raised e w
      | Inr pieces \<Rightarrow>
     (case index0 pieces of
        Inl e \<Rightarrow> Raised e w
      | Inr header \<Rightarrow>
     (let combined_content =
            header @ ''\<newline>// Export all functions directly\<newline>'' @ utils_content
      in os_remove ''Utils.gs'' (write_file ''Utils_Main.gs'' combined_content w))))))"

section \<open>remove\_facade.py\<close>

definition remove_facade_update_file_content :: "string \<Rightarrow> world \<Rightarrow> outcome" where
  "remove_facade_update_file_content filename w =
     (case read_file filename w of
        Inl e \<Rightarrow> Raised e w
      | Inr content \<Rightarrow>
          Returned (write_file filename (str_replace content ''Utils_Main'' '''') w))"

definition files_to_update :: "string list" where
  \<comment> \<open>the same list in remove\_facade.py and in update\_utils.py\<close>
  "files_to_update =
     [''Code.gs'',
      ''Config.gs'',
      ''DataRetrieval.gs'',
      ''Email.gs'',
      ''FetchEconomicEvents.gs'',
      ''FundamentalMetrics.gs'',
      ''GoogleSearch.gs'',
      ''KeyMarketIndicators.gs'',
      ''MacroeconomicFactors.gs'',
      ''MarketSentiment.gs'',
      ''Prompt.gs'',
      ''Setup.gs'',
      ''StockDataRetriever.gs'']"

text \<open>
  The loop \<open>for filename in files_to_update: if os.path.exists(filename): ...\<close>, for any
  per-file update, as a recursion over the list. \<open>print(f'Updated: {filename}')\<close> adds a
  line to the output.
\<close>

fun update_each :: "(string \<Rightarrow> world \<Rightarrow> outcome) \<Rightarrow> string list \<Rightarrow> world \<Rightarrow> outcome" where
  "update_each upd [] w = Returned w"
| "update_each upd (filename # rest) w =
     (if os_path_exists filename w
      then and_then (upd filename w)
             (\<lambda>w1. update_each upd rest (print (''Updated: '' @ filename) w1))
      else update_each upd rest w)"

definition remove_facade_script :: "world \<Rightarrow> outcome" where
  "remove_facade_script w =
     and_then (update_each remove_facade_update_file_content files_to_update w)
       (os_remove ''Utils_Main.gs'')"

section \<open>restore\_facade.py\<close>

definition facade_lines :: "string list" where
  \<comment> \<open>the lines of the text literal of \<open>restore_facade\<close>, each with its line break\<close>
  "facade_lines =
     [''\<newline>'',
      ''// Export all functions directly\<newline>'',
      ''Object.assign(this, {\<newline>'',
      ''  enhancedCleanAnalysisResult: CoreUtils.enhancedCleanAnalysisResult,\<newline>'',
      ''  testEnhancedJsonParsing: CoreUtils.testEnhancedJsonParsing,\<newline>'',
      ''  formatHtmlEmailBodyWithAnalysis: EmailUtils.formatHtmlEmailBodyWithAnalysis,\<newline>'',
      ''  generateEmailTemplate: EmailUtils.generateEmailTemplate,\<newline>'',
      ''  generateMarketSentimentSection: MarketSentiment.generateMarketSentimentSection,\<newline>'',
      ''  generateMarketIndicatorsSection: MarketIndicators.generateMarketIndicatorsSection,\<newline>'',
      ''  generateFundamentalMetricsSection: FundamentalMetrics.generateFundamentalMetricsSection,\<newline>'',
      ''  generateMacroeconomicFactorsSection: MacroeconomicFactors.generateMacroeconomicFactorsSection,\<newline>'',
      ''  generateGeopoliticalRisksSection: GeopoliticalRisks.generateGeopoliticalRisksSection,\<newline>'',
      ''  formatDate: DataUtils.formatDate,\<newline>'',
      ''  formatValue: DataUtils.formatValue,\<newline>'',
      ''  formatNumberWithSuffix: DataUtils.formatNumberWithSuffix,\<newline>'',
      ''  saveToGoogleDrive: DataUtils.saveToGoogleDrive,\<newline>'',
      ''  retrieveMacroeconomicFactors: MacroeconomicFactors.retrieveMacroeconomicFactors,\<newline>'',
      ''  retrieveTreasuryYields: MacroeconomicFactors.retrieveTreasuryYields,\<newline>'',
      ''  retrieveInflationData: MacroeconomicFactors.retrieveInflationData,\<newline>'',
      ''  retrieveFedPolicy: MacroeconomicFactors.retrieveFedPolicy\<newline>'',
      ''});\<newline>'']"

definition facade_block :: string where
  "facade_block = concat facade_lines"

text \<open>
  The text literal read as the mapping it spells out: after the marker line and the line
  that opens \<open>Object.assign\<close>, one entry for each exported name, which is two blanks, the
  name, a colon, a blank and the name qualified by its module; the entries are joined by a
  comma and a line break, as \<open>',\n'.join\<close> does in Python, and the line \<open>});\<close> closes
  the block. These three definitions describe the literal and take no part in
  \<open>restore_facade\<close>; the theorem on the Facade Restorer proves that \<open>facade_block\<close> is
  this text.
\<close>

definition exported_names :: "(string \<times> string) list" where
  "exported_names =
     [(''enhancedCleanAnalysisResult'', ''CoreUtils''),
      (''testEnhancedJsonParsing'', ''CoreUtils''),
      (''formatHtmlEmailBodyWithAnalysis'', ''EmailUtils''),
      (''generateEmailTemplate'', ''EmailUtils''),
      (''generateMarketSentimentSection'', ''MarketSentiment''),
      (''generateMarketIndicatorsSection'', ''MarketIndicators''),
      (''generateFundamentalMetricsSection'', ''FundamentalMetrics''),
      (''generateMacroeconomicFactorsSection'', ''MacroeconomicFactors''),
      (''generateGeopoliticalRisksSection'', ''GeopoliticalRisks''),
      (''formatDate'', ''DataUtils''),
      (''formatValue'', ''DataUtils''),
      (''formatNumberWithSuffix'', ''DataUtils''),
      (''saveToGoogleDrive'', ''DataUtils''),
      (''retrieveMacroeconomicFactors'', ''MacroeconomicFactors''),
      (''retrieveTreasuryYields'', ''MacroeconomicFactors''),
      (''retrieveInflationData'', ''MacroeconomicFactors''),
      (''retrieveFedPolicy'', ''MacroeconomicFactors'')]"

definition mapping_entry :: "string \<times> string \<Rightarrow> string" where
  "mapping_entry = (\<lambda>(name, source). ''  '' @ name @ '': '' @ source @ ''.'' @ name)"

fun str_join :: "string \<Rightarrow> string list \<Rightarrow> string" where
  "str_join sep [] = []"
| "str_join sep [x] = x"
| "str_join sep (x # y # ys) = x @ sep @ str_join sep (y # ys)"

definition restore_facade :: "world \<Rightarrow> outcome" where
  "restore_facade w =
     (case read_file ''Utils_Main.gs'' w of
        Inl e \<Rightarrow> Raised e w
      | Inr content \<Rightarrow>
     (case str_split content ''// Export all functions directly'' of
        Inl e \<Rightarrow> Raised e w
      | Inr pieces \<Rightarrow>
     (case index0 pieces of
        Inl e \<Rightarrow> Raised e w
      | Inr import_section \<Rightarrow>
          Returned (write_file ''Utils_Main.gs'' (import_section @ facade_block) w))))"

section \<open>Regular expressions of update\_utils.py\<close>

text \<open>
  The three patterns of the script use literals, character classes, a greedy \<open>+\<close> on a
  character class, the word boundary \<open>\b\<close>, alternation, sequence and one capturing
  group; \<open>(?:...)\<close> only brackets and has no constructor of its own.
\<close>

datatype cclass = OneOf string | NoneOf string

datatype re =
    Lit string
  | Cls cclass
  | Plus cclass
  | WordB
  | Alt re re
  | Seq re re
  | Grp re

fun in_class :: "cclass \<Rightarrow> char \<Rightarrow> bool" where
  "in_class (OneOf cs) c = (c \<in> set cs)"
| "in_class (NoneOf cs) c = (c \<notin> set cs)"

text \<open>
  \<open>\w\<close> of a \<open>str\<close> pattern: the underscore and every code point that is alphanumeric
  in Unicode. Below U+0100 these are the ASCII letters and digits, the letters of Latin-1
  (U+00D7 and U+00F7 are the signs of multiplication and division) and the code points
  U+00AA, U+00B2, U+00B3, U+00B5, U+00B9, U+00BA, U+00BC, U+00BD and U+00BE.
\<close>

definition is_word :: "char \<Rightarrow> bool" where
  "is_word c =
     (let n = (of_char c :: nat) in
        c = CHR ''_''
      \<or> (48 \<le> n \<and> n \<le> 57) \<or> (65 \<le> n \<and> n \<le> 90) \<or> (97 \<le> n \<and> n \<le> 122)
      \<or> n \<in> {0xAA, 0xB2, 0xB3, 0xB5, 0xB9, 0xBA, 0xBC, 0xBD, 0xBE}
      \<or> (0xC0 \<le> n \<and> n \<noteq> 0xD7 \<and> n \<noteq> 0xF7))"

fun word_before :: "char option \<Rightarrow> bool" where
  "word_before None = False"
| "word_before (Some c) = is_word c"

fun word_after :: "string \<Rightarrow> bool" where
  "word_after [] = False"
| "word_after (c # cs) = is_word c"

text \<open>
  A state of the matcher: the character before the current position (none at the start of
  the text), the text matched so far, the content of group 1 if it is set, and the text
  that remains.
\<close>

type_synonym mstate = "char option \<times> string \<times> string option \<times> string"

text \<open>
  \<open>star cl st\<close> lists the states after zero or more characters of the class, the longest
  run first, as a greedy repetition tries them.
\<close>

fun star :: "cclass \<Rightarrow> mstate \<Rightarrow> mstate list" where
  "star cl (p, t, g, []) = [(p, t, g, [])]"
| "star cl (p, t, g, c # r) =
     (if in_class cl c then star cl (Some c, t @ [c], g, r) @ [(p, t, g, c # r)]
      else [(p, t, g, c # r)])"

text \<open>
  \<open>run e st\<close> lists the states in which a match of \<open>e\<close> from \<open>st\<close> can end, in the
  order in which the backtracking matcher of Python's \<open>re\<close> module reaches them: the
  left alternative before the right one, the longer repetition before the shorter one. What
  the matcher finds is the first state of the list.
\<close>

fun run :: "re \<Rightarrow> mstate \<Rightarrow> mstate list" where
  "run (Lit l) (p, t, g, r) =
     (if prefix l r
      then [(if l = [] then p else Some (last l), t @ l, g, drop (length l) r)]
      else [])"
| "run (Cls cl) (p, t, g, r) =
     (case r of
        [] \<Rightarrow> []
      | c # r' \<Rightarrow> if in_class cl c then [(Some c, t @ [c], g, r')] else [])"
| "run (Plus cl) (p, t, g, r) =
     (case r of
        [] \<Rightarrow> []
      | c # r' \<Rightarrow> if in_class cl c then star cl (Some c, t @ [c], g, r') else [])"
| "run WordB (p, t, g, r) =
     (if word_before p \<noteq> word_after r then [(p, t, g, r)] else [])"
| "run (Alt a b) st = run a st @ run b st"
| "run (Seq a b) st = concat (map (run b) (run a st))"
| "run (Grp a) (p, t, g, r) =
     map (\<lambda>(p', t', g', r'). (p', t', Some (drop (length t) t'), r')) (run a (p, t, g, r))"

text \<open>
  \<open>match_at e p s\<close>: the match of \<open>e\<close> that starts at the current position, where
  \<open>p\<close> is the character before it and \<open>s\<close> the text from it on. The result is the
  matched text and group 1.
\<close>

definition match_at :: "re \<Rightarrow> char option \<Rightarrow> string \<Rightarrow> (string \<times> string option) option" where
  "match_at e p s =
     (case run e (p, [], None, s) of
        [] \<Rightarrow> None
      | (p', t, g, r) # _ \<Rightarrow> Some (t, g))"

text \<open>
  \<open>re.sub(pattern, repl, content)\<close> with a function \<open>repl\<close>: the text is scanned from
  left to right; where the pattern matches, the value of \<open>repl\<close> takes the place of the
  matched text and the scan goes on behind the match; elsewhere the character is kept.
  None of the three patterns matches the empty text (\<open>match_at_pat1_taken\<close>,
  \<open>match_at_pat2_taken\<close>, \<open>match_at_pat3_taken\<close> below), so the branch for an empty
  match, which keeps the character, is never taken by this script.
\<close>

function re_sub :: "re \<Rightarrow> (string option \<Rightarrow> string) \<Rightarrow> char option \<Rightarrow> string \<Rightarrow> string" where
  "re_sub e repl p [] = []"
| "re_sub e repl p (c # cs) =
     (case match_at e p (c # cs) of
        None \<Rightarrow> c # re_sub e repl (Some c) cs
      | Some (t, g) \<Rightarrow>
          if t = [] then c # re_sub e repl (Some c) cs
          else repl g @ re_sub e repl (Some (last t)) (drop (length t) (c # cs)))"
  by pat_completeness auto
termination
  by (relation "measure (\<lambda>(e, repl, p, s). length s)") auto

section \<open>update\_utils.py\<close>

definition quotes :: string where
  "quotes = [CHR ''\"'', CHR 0x27]"

definition pat1 :: re where
  \<comment> \<open>\<^verbatim>\<open>include\((?:["\'])([^\"\']+)(?:["\'])\)\<close>\<close>
  "pat1 =
     Seq (Lit ''include('')
    (Seq (Cls (OneOf quotes))
    (Seq (Grp (Plus (NoneOf quotes)))
    (Seq (Cls (OneOf quotes))
         (Lit '')''))))"

definition pat2 :: re where
  \<comment> \<open>\<^verbatim>\<open>(\b(?:Core|Email|Analysis|Data)Utils\b)\<close>\<close>
  "pat2 =
     Grp (Seq WordB
         (Seq (Alt (Lit ''Core'') (Alt (Lit ''Email'') (Alt (Lit ''Analysis'') (Lit ''Data''))))
         (Seq (Lit ''Utils'')
              WordB)))"

definition pat3 :: re where
  \<comment> \<open>\<^verbatim>\<open>(\b(?:FundamentalMetrics|MacroeconomicFactors|MarketIndicators|MarketSentiment|GeopoliticalRisks)\b)\<close>\<close>
  "pat3 =
     Grp (Seq WordB
         (Seq (Alt (Lit ''FundamentalMetrics'')
              (Alt (Lit ''MacroeconomicFactors'')
              (Alt (Lit ''MarketIndicators'')
              (Alt (Lit ''MarketSentiment'')
                   (Lit ''GeopoliticalRisks'')))))
              WordB))"

fun group1 :: "string option \<Rightarrow> string" where
  \<comment> \<open>\<open>{m.group(1)}\<close> in an f-string; a group that is not set formats as \<open>None\<close>\<close>
  "group1 None = ''None''"
| "group1 (Some x) = x"

definition repl_include :: "string option \<Rightarrow> string" where
  \<comment> \<open>\<^verbatim>\<open>lambda m: f'include("Utils_{m.group(1)}")'\<close>\<close>
  "repl_include g = ''include(\"Utils_'' @ group1 g @ ''\")''"

definition repl_prefix :: "string option \<Rightarrow> string" where
  \<comment> \<open>\<^verbatim>\<open>lambda m: f'Utils_{m.group(1)}'\<close>\<close>
  "repl_prefix g = ''Utils_'' @ group1 g"

definition pass1 :: "string \<Rightarrow> string" where
  "pass1 content = re_sub pat1 repl_include None content"

definition pass2 :: "string \<Rightarrow> string" where
  "pass2 content = re_sub pat2 repl_prefix None content"

definition pass3 :: "string \<Rightarrow> string" where
  "pass3 content = re_sub pat3 repl_prefix None content"

definition update_content :: "string \<Rightarrow> string" where
  \<comment> \<open>the three substitutions of \<open>update_file_content\<close>, in the order of the source\<close>
  "update_content content = pass3 (pass2 (pass1 content))"

definition update_utils_update_file_content :: "string \<Rightarrow> world \<Rightarrow> outcome" where
  "update_utils_update_file_content filename w =
     (case read_file filename w of
        Inl e \<Rightarrow> Raised e w
      | Inr content \<Rightarrow> Returned (write_file filename (update_content content) w))"

definition update_utils_script :: "world \<Rightarrow> outcome" where
  "update_utils_script w =
     update_each update_utils_update_file_content files_to_update w"

section \<open>Cutting a text at the first occurrence of a separator\<close>

text \<open>
  An occurrence of \<open>sep\<close> in \<open>s\<close> is \<open>sublist sep s\<close>. In \<open>pre @ sep @ post\<close> the
  occurrence after \<open>pre\<close> is the first one when \<open>sep\<close> does not occur in
  \<open>pre @ butlast sep\<close>, that is, when no occurrence starts earlier.
\<close>

lemma split_pieces_not_Nil: "split_pieces sep s \<noteq> []"
  by (induction sep s rule: split_pieces.induct) (auto split: list.splits)

lemma split_pieces_absent:
  "\<not> sublist sep s \<Longrightarrow> split_pieces sep s = [s]"
proof (induction s)
  case Nil
  then show ?case by simp
next
  case (Cons c cs)
  from Cons.prems have np: "\<not> prefix sep (c # cs)" and ns: "\<not> sublist sep cs"
    by (auto simp: sublist_Cons_right)
  from Cons.IH [OF ns] np show ?case by simp
qed

lemma prefix_within:
  assumes "prefix xs (ys @ zs)" and "length xs \<le> length ys"
  shows "prefix xs ys"
  using assms by (auto simp: prefix_append)

lemma split_pieces_first:
  assumes "sep \<noteq> []" and "\<not> sublist sep (pre @ butlast sep)"
  shows "split_pieces sep (pre @ sep @ post) = pre # split_pieces sep post"
  using assms(2)
proof (induction pre)
  case Nil
  obtain c cs where s: "sep @ post = c # cs"
    using assms(1) by (cases sep) auto
  have p: "prefix sep (c # cs)" unfolding s [symmetric] by simp
  have d: "drop (length sep) (c # cs) = post" unfolding s [symmetric] by simp
  have "split_pieces sep (c # cs) = [] # split_pieces sep post"
    using assms(1) p d by simp
  then show ?case by (simp add: s)
next
  case (Cons a pre)
  have whole: "(a # pre) @ sep @ post = ((a # pre) @ butlast sep) @ (last sep # post)"
    using assms(1) by (metis append.assoc append_Cons append_Nil append_butlast_last_id)
  have np: "\<not> prefix sep (a # pre @ sep @ post)"
  proof
    assume "prefix sep (a # pre @ sep @ post)"
    then have "prefix sep (((a # pre) @ butlast sep) @ (last sep # post))"
      unfolding whole [symmetric] by simp
    moreover have "length sep \<le> length ((a # pre) @ butlast sep)"
      by simp
    ultimately have "prefix sep ((a # pre) @ butlast sep)"
      by (rule prefix_within)
    then show False using Cons.prems by (auto dest: prefix_imp_sublist)
  qed
  have "\<not> sublist sep (pre @ butlast sep)"
    using Cons.prems by (auto simp: sublist_Cons_right)
  from Cons.IH [OF this] np show ?case by simp
qed

lemma first_occurrence:
  assumes "sep \<noteq> []" and "sublist sep s"
  shows "\<exists>pre post. s = pre @ sep @ post \<and> \<not> sublist sep (pre @ butlast sep)"
  using assms(2)
proof (induction s)
  case Nil
  then show ?case using assms(1) by simp
next
  case (Cons c cs)
  show ?case
  proof (cases "prefix sep (c # cs)")
    case True
    then obtain post where "c # cs = [] @ sep @ post" by (auto simp: prefix_def)
    moreover have "\<not> sublist sep ([] @ butlast sep)"
      using assms(1) sublist_length_le [of sep "butlast sep"] by (cases sep) auto
    ultimately show ?thesis by blast
  next
    case False
    with Cons.prems have "sublist sep cs" by (simp add: sublist_Cons_right)
    from Cons.IH [OF this] obtain pre post
      where cs: "cs = pre @ sep @ post" and free: "\<not> sublist sep (pre @ butlast sep)"
      by blast
    have "\<not> prefix sep (c # pre @ butlast sep)"
    proof
      assume "prefix sep (c # pre @ butlast sep)"
      moreover have "prefix (c # pre @ butlast sep) (c # cs)"
        using assms(1) cs by (simp add: prefix_def) (metis append_butlast_last_id append.assoc append_Cons)
      ultimately show False using False by (meson prefix_order.trans)
    qed
    with free have "\<not> sublist sep ((c # pre) @ butlast sep)"
      by (simp add: sublist_Cons_right)
    moreover have "c # cs = (c # pre) @ sep @ post" using cs by simp
    ultimately show ?thesis by blast
  qed
qed

lemma sublist_skip_foreign:
  assumes "c \<notin> set sep" and "sublist sep (xs @ c # ys)"
  shows "sublist sep xs \<or> sublist sep ys"
proof -
  from assms(2) consider "sublist sep xs" | "sublist sep (c # ys)"
    | xs1 xs2 where "sep = xs1 @ xs2" "suffix xs1 xs" "prefix xs2 (c # ys)"
    by (auto simp: sublist_append)
  then show ?thesis
  proof cases
    case 1 then show ?thesis by simp
  next
    case 2
    then show ?thesis using assms(1)
      by (cases sep) (auto simp: sublist_Cons_right)
  next
    case 3
    show ?thesis
    proof (cases xs2)
      case Nil
      with 3 show ?thesis by (auto dest: suffix_imp_sublist)
    next
      case (Cons d ds)
      with 3 assms(1) show ?thesis by auto
    qed
  qed
qed

lemma marker_not_Nil: "marker \<noteq> []"
  by (simp add: marker_def)

lemma newline_not_in_marker: "CHR ''\<newline>'' \<notin> set marker"
  by (simp add: marker_def)

lemma str_split_marker:
  "str_split s ''// Export all functions directly'' = Inr (split_pieces marker s)"
  by (simp add: str_split_def marker_def)

lemma header_cases:
  assumes "sep \<noteq> []"
  shows "\<exists>h ps. split_pieces sep s = h # ps \<and> \<not> sublist sep h \<and>
           ((\<not> sublist sep s \<and> h = s) \<or>
            (\<exists>post. s = h @ sep @ post \<and> \<not> sublist sep (h @ butlast sep)))"
proof (cases "sublist sep s")
  case False
  then show ?thesis by (simp add: split_pieces_absent)
next
  case True
  from first_occurrence [OF assms True] obtain pre post
    where s: "s = pre @ sep @ post" and free: "\<not> sublist sep (pre @ butlast sep)"
    by blast
  have "\<not> sublist sep pre"
    using free by (auto simp: sublist_append)
  moreover have "split_pieces sep s = pre # split_pieces sep post"
    unfolding s using assms free by (rule split_pieces_first)
  ultimately show ?thesis using s free by blast
qed

lemma facade_block_starts:
  "\<exists>t. facade_block = CHR ''\<newline>'' # marker @ t"
  by (simp add: facade_block_def facade_lines_def marker_def)

section \<open>The Combiner\<close>

text \<open>
  Claim C4. When \<open>Utils_Main.gs\<close> (file B) holds \<open>pre\<close>, the marker at its first
  occurrence and then anything, and \<open>Utils.gs\<close> (file A) holds \<open>a\<close>, then
  \<open>combine_files\<close> returns without an exception, B holds \<open>pre\<close>, a line break, the
  marker line and \<open>a\<close>, and A no longer exists. The witness is the example of the
  specification: \<open>HEADER\<close>, the marker line and \<open>OLD_BODY\<close> in B, \<open>NEW_BODY\<close> in A.
\<close>

theorem combine_files_result:
  assumes "files w ''Utils.gs'' = Some a"
    and "files w ''Utils_Main.gs'' = Some (pre @ marker @ post)"
    and "\<not> sublist marker (pre @ butlast marker)"
  shows "combine_files w =
           Returned (w\<lparr>files := (files w)
             (''Utils_Main.gs'' \<mapsto> pre @ ''\<newline>// Export all functions directly\<newline>'' @ a,
              ''Utils.gs'' := None)\<rparr>)"
proof -
  have "split_pieces marker (pre @ marker @ post) = pre # split_pieces marker post"
    using marker_not_Nil assms(3) by (rule split_pieces_first)
  then show ?thesis
    using assms(1,2)
    by (simp add: combine_files_def read_file_def str_split_marker index0_def
        write_file_def os_remove_def)
qed

theorem combine_files_result_witness:
  "combine_files
     \<lparr>files = [''Utils.gs'' \<mapsto> ''NEW_BODY'',
        ''Utils_Main.gs'' \<mapsto> ''HEADER\<newline>// Export all functions directly\<newline>OLD_BODY''],
      out = []\<rparr>
   = Returned
     \<lparr>files = [''Utils_Main.gs'' \<mapsto> ''HEADER\<newline>\<newline>// Export all functions directly\<newline>NEW_BODY''],
      out = []\<rparr>"
proof -
  have free: "\<not> sublist marker (''HEADER\<newline>'' @ butlast marker)"
    by (simp add: marker_def sublist_Cons_right)
  show ?thesis
    using combine_files_result [of "\<lparr>files = [''Utils.gs'' \<mapsto> ''NEW_BODY'',
        ''Utils_Main.gs'' \<mapsto> ''HEADER\<newline>// Export all functions directly\<newline>OLD_BODY''],
      out = []\<rparr>" "''NEW_BODY''" "''HEADER\<newline>''" "''\<newline>OLD_BODY''", OF _ _ free]
    by (simp add: marker_def fun_eq_iff)
qed

text \<open>
  Claim C8. When the content \<open>b\<close> of \<open>Utils_Main.gs\<close> has no occurrence of the marker,
  all of \<open>b\<close> is kept: the new content is \<open>b\<close>, a line break, the marker line and the
  content of \<open>Utils.gs\<close>.
\<close>

theorem combine_files_no_marker:
  assumes "files w ''Utils.gs'' = Some a"
    and "files w ''Utils_Main.gs'' = Some b"
    and "\<not> sublist marker b"
  shows "combine_files w =
           Returned (w\<lparr>files := (files w)
             (''Utils_Main.gs'' \<mapsto> b @ ''\<newline>// Export all functions directly\<newline>'' @ a,
              ''Utils.gs'' := None)\<rparr>)"
proof -
  have "split_pieces marker b = [b]"
    using assms(3) by (simp add: split_pieces_absent)
  then show ?thesis
    using assms(1,2)
    by (simp add: combine_files_def read_file_def str_split_marker index0_def
        write_file_def os_remove_def)
qed

theorem combine_files_no_marker_witness:
  "combine_files
     \<lparr>files = [''Utils.gs'' \<mapsto> ''NEW_BODY'', ''Utils_Main.gs'' \<mapsto> ''HEADER''], out = []\<rparr>
   = Returned
     \<lparr>files = [''Utils_Main.gs'' \<mapsto> ''HEADER\<newline>// Export all functions directly\<newline>NEW_BODY''],
      out = []\<rparr>"
proof -
  have free: "\<not> sublist marker ''HEADER''"
    by (simp add: marker_def sublist_Cons_right)
  show ?thesis
    using combine_files_no_marker [of "\<lparr>files = [''Utils.gs'' \<mapsto> ''NEW_BODY'',
        ''Utils_Main.gs'' \<mapsto> ''HEADER''], out = []\<rparr>" "''NEW_BODY''" "''HEADER''", OF _ _ free]
    by (simp add: fun_eq_iff)
qed

section \<open>The Facade Restorer\<close>

lemma restore_facade_header:
  assumes "files w ''Utils_Main.gs'' = Some content"
    and "split_pieces marker content = h # ps"
  shows "restore_facade w = Returned (write_file ''Utils_Main.gs'' (h @ facade_block) w)"
  using assms
  by (simp add: restore_facade_def read_file_def str_split_marker index0_def)

lemma not_sublist_butlast:
  assumes "sep \<noteq> []"
  shows "\<not> sublist sep (butlast sep)"
  using assms sublist_length_le [of sep "butlast sep"] by (cases sep) auto

lemma header_then_block_first:
  assumes "\<not> sublist marker h"
  shows "\<not> sublist marker ((h @ ''\<newline>'') @ butlast marker)"
proof
  assume "sublist marker ((h @ ''\<newline>'') @ butlast marker)"
  then have "sublist marker (h @ CHR ''\<newline>'' # butlast marker)" by simp
  with newline_not_in_marker have "sublist marker h \<or> sublist marker (butlast marker)"
    by (rule sublist_skip_foreign)
  moreover have "\<not> sublist marker (butlast marker)"
    using marker_not_Nil by (rule not_sublist_butlast)
  ultimately show False using assms by blast
qed

lemma facade_block_mapping:
  "facade_block =
     ''\<newline>// Export all functions directly\<newline>Object.assign(this, {\<newline>''
     @ str_join '',\<newline>'' (map mapping_entry exported_names) @ ''\<newline>});\<newline>''"
  by (simp add: facade_block_def facade_lines_def exported_names_def mapping_entry_def)

lemma length_exported_names: "length exported_names = 17"
  by (simp add: exported_names_def)

text \<open>
  Claim C5. Whatever \<open>Utils_Main.gs\<close> held before, \<open>restore_facade\<close> returns without
  an exception and the file then holds a header followed by \<open>facade_block\<close>, the text
  literal of the script: the file ends with that block. The header is the earlier content up
  to its first marker, or all of it when it had no marker. The block that the file ends with
  is a line break, the marker line, the line that opens \<open>Object.assign\<close>, the 17 entries
  of \<open>exported_names\<close>, each as two blanks, the name, a colon and the qualified name,
  joined by a comma and a line break, and the closing line \<open>});\<close>.
\<close>

theorem restore_facade_block:
  assumes "files w ''Utils_Main.gs'' = Some content"
  shows "\<exists>header.
           restore_facade w = Returned (write_file ''Utils_Main.gs'' (header @ facade_block) w)
         \<and> files (world_of (restore_facade w)) ''Utils_Main.gs'' = Some (header @ facade_block)
         \<and> suffix facade_block (header @ facade_block)
         \<and> ((\<not> sublist marker content \<and> header = content) \<or>
            (\<exists>post. content = header @ marker @ post \<and> \<not> sublist marker (header @ butlast marker)))
         \<and> prefix (''\<newline>'' @ marker @ ''\<newline>Object.assign(this, {\<newline>'') facade_block
         \<and> length (filter (prefix ''  '') facade_lines) = 17
         \<and> facade_block = concat facade_lines
         \<and> facade_block =
             ''\<newline>// Export all functions directly\<newline>Object.assign(this, {\<newline>''
             @ str_join '',\<newline>'' (map mapping_entry exported_names) @ ''\<newline>});\<newline>''
         \<and> length exported_names = 17
         \<and> files (world_of (restore_facade w)) ''Utils_Main.gs'' =
             Some (header @ ''\<newline>// Export all functions directly\<newline>Object.assign(this, {\<newline>''
                   @ str_join '',\<newline>'' (map mapping_entry exported_names) @ ''\<newline>});\<newline>'')"
proof -
  from header_cases [OF marker_not_Nil, of content] obtain h ps
    where sp: "split_pieces marker content = h # ps"
      and cases: "(\<not> sublist marker content \<and> h = content) \<or>
            (\<exists>post. content = h @ marker @ post \<and> \<not> sublist marker (h @ butlast marker))"
    by blast
  have r: "restore_facade w = Returned (write_file ''Utils_Main.gs'' (h @ facade_block) w)"
    using assms sp by (rule restore_facade_header)
  have f: "files (world_of (restore_facade w)) ''Utils_Main.gs'' = Some (h @ facade_block)"
    by (simp add: r write_file_def)
  have s: "suffix facade_block (h @ facade_block)"
    by (simp add: suffix_def)
  have p: "prefix (''\<newline>'' @ marker @ ''\<newline>Object.assign(this, {\<newline>'') facade_block"
    by (simp add: facade_block_def facade_lines_def marker_def)
  have n: "length (filter (prefix ''  '') facade_lines) = 17"
    by (simp add: facade_lines_def)
  have c: "facade_block = concat facade_lines"
    by (rule facade_block_def)
  have f2: "files (world_of (restore_facade w)) ''Utils_Main.gs'' =
             Some (h @ ''\<newline>// Export all functions directly\<newline>Object.assign(this, {\<newline>''
                   @ str_join '',\<newline>'' (map mapping_entry exported_names) @ ''\<newline>});\<newline>'')"
    using f unfolding facade_block_mapping [symmetric] .
  from r f s cases p n c facade_block_mapping length_exported_names f2
  show ?thesis by (intro exI [of _ h] conjI)
qed

theorem restore_facade_block_witness:
  "\<exists>header.
     restore_facade \<lparr>files = [''Utils_Main.gs'' \<mapsto> ''import X\<newline>// Export all functions directly\<newline>old''], out = []\<rparr>
       = Returned \<lparr>files = [''Utils_Main.gs'' \<mapsto> header @ facade_block], out = []\<rparr>
   \<and> suffix facade_block (header @ facade_block)
   \<and> facade_block =
         ''\<newline>// Export all functions directly\<newline>Object.assign(this, {\<newline>''
         @ str_join '',\<newline>'' (map mapping_entry exported_names) @ ''\<newline>});\<newline>''
   \<and> length exported_names = 17"
proof -
  let ?w = "\<lparr>files = [''Utils_Main.gs'' \<mapsto> ''import X\<newline>// Export all functions directly\<newline>old''], out = []\<rparr>"
  have a: "files ?w ''Utils_Main.gs'' = Some ''import X\<newline>// Export all functions directly\<newline>old''"
    by simp
  from restore_facade_block [OF a] obtain h where
    r: "restore_facade ?w = Returned (write_file ''Utils_Main.gs'' (h @ facade_block) ?w)"
    and s: "suffix facade_block (h @ facade_block)"
    and m: "facade_block =
         ''\<newline>// Export all functions directly\<newline>Object.assign(this, {\<newline>''
         @ str_join '',\<newline>'' (map mapping_entry exported_names) @ ''\<newline>});\<newline>''"
    and l: "length exported_names = 17"
    by blast
  have e: "write_file ''Utils_Main.gs'' (h @ facade_block) ?w
      = \<lparr>files = [''Utils_Main.gs'' \<mapsto> h @ facade_block], out = []\<rparr>"
    by (simp add: write_file_def)
  from r [unfolded e] s m l show ?thesis by (intro exI [of _ h] conjI)
qed

text \<open>
  Claim C10. The block starts with a line break, so the header that a second run keeps is
  the header of the first run and that line break: after one run the file holds the header,
  one line break and the text from the marker on; after two runs it holds the header, two
  line breaks and the same text from the marker on.
\<close>

theorem restore_facade_twice:
  assumes "files w ''Utils_Main.gs'' = Some content"
  shows "\<exists>header block.
           facade_block = ''\<newline>'' @ marker @ block
         \<and> \<not> sublist marker header
         \<and> restore_facade w
             = Returned (write_file ''Utils_Main.gs'' (header @ ''\<newline>'' @ marker @ block) w)
         \<and> and_then (restore_facade w) restore_facade
             = Returned (write_file ''Utils_Main.gs'' (header @ ''\<newline>\<newline>'' @ marker @ block) w)"
proof -
  from header_cases [OF marker_not_Nil, of content] obtain h ps
    where sp: "split_pieces marker content = h # ps" and free: "\<not> sublist marker h"
    by blast
  from facade_block_starts obtain block where fb: "facade_block = ''\<newline>'' @ marker @ block"
    by auto
  let ?w1 = "write_file ''Utils_Main.gs'' (h @ facade_block) w"
  have r1: "restore_facade w = Returned ?w1"
    using assms sp by (rule restore_facade_header)
  have c1: "files ?w1 ''Utils_Main.gs'' = Some ((h @ ''\<newline>'') @ marker @ block)"
    by (simp add: write_file_def fb)
  have sp1: "split_pieces marker ((h @ ''\<newline>'') @ marker @ block)
               = (h @ ''\<newline>'') # split_pieces marker block"
    using marker_not_Nil header_then_block_first [OF free] by (rule split_pieces_first)
  have r2: "restore_facade ?w1
              = Returned (write_file ''Utils_Main.gs'' ((h @ ''\<newline>'') @ facade_block) ?w1)"
    using c1 sp1 by (rule restore_facade_header)
  have "write_file ''Utils_Main.gs'' ((h @ ''\<newline>'') @ facade_block) ?w1
          = write_file ''Utils_Main.gs'' (h @ ''\<newline>\<newline>'' @ marker @ block) w"
    by (simp add: write_file_def fb)
  with r1 r2 have "and_then (restore_facade w) restore_facade
      = Returned (write_file ''Utils_Main.gs'' (h @ ''\<newline>\<newline>'' @ marker @ block) w)"
    by simp
  moreover have "restore_facade w
      = Returned (write_file ''Utils_Main.gs'' (h @ ''\<newline>'' @ marker @ block) w)"
    using r1 fb by simp
  ultimately show ?thesis using fb free by blast
qed

theorem restore_facade_twice_witness:
  "\<exists>header block.
     facade_block = ''\<newline>'' @ marker @ block
   \<and> \<not> sublist marker header
   \<and> restore_facade \<lparr>files = [''Utils_Main.gs'' \<mapsto> ''import X''], out = []\<rparr>
       = Returned \<lparr>files = [''Utils_Main.gs'' \<mapsto> header @ ''\<newline>'' @ marker @ block], out = []\<rparr>
   \<and> and_then (restore_facade \<lparr>files = [''Utils_Main.gs'' \<mapsto> ''import X''], out = []\<rparr>) restore_facade
       = Returned \<lparr>files = [''Utils_Main.gs'' \<mapsto> header @ ''\<newline>\<newline>'' @ marker @ block], out = []\<rparr>"
  using restore_facade_twice [of "\<lparr>files = [''Utils_Main.gs'' \<mapsto> ''import X''], out = []\<rparr>" "''import X''"]
  by (auto simp: write_file_def)

section \<open>The Facade Remover\<close>

lemma write_file_twice:
  "write_file f b (write_file f a w) = write_file f b w"
  by (simp add: write_file_def)

lemma files_write_file: "files (write_file f a w) f = Some a"
  by (simp add: write_file_def)

lemma replace_scan_pieces:
  assumes "old \<noteq> []"
  shows "replace_scan old [] s = concat (split_pieces old s)"
  using assms
proof (induction old s rule: split_pieces.induct)
  case (1 sep)
  show ?case by simp
next
  case (2 sep c cs)
  show ?case
  proof (cases "prefix sep (c # cs)")
    case True
    with 2 show ?thesis by simp
  next
    case False
    obtain p ps where sp: "split_pieces sep cs = p # ps"
      using split_pieces_not_Nil [of sep cs] by (cases "split_pieces sep cs") auto
    from 2 False sp show ?thesis by simp
  qed
qed

lemma replace_scan_absent:
  assumes "\<not> sublist old s"
  shows "replace_scan old new s = s"
  using assms
proof (induction s)
  case Nil
  show ?case by simp
next
  case (Cons c cs)
  then have "\<not> prefix old (c # cs)" and "\<not> sublist old cs"
    by (auto simp: sublist_Cons_right)
  with Cons.IH show ?case by simp
qed

lemma replace_scan_length_le:
  "length (replace_scan old [] s) \<le> length s"
proof (induction old "[] :: 'a list" s rule: replace_scan.induct)
  case (1 old)
  show ?case by simp
next
  case (2 old c cs)
  show ?case
  proof (cases "old \<noteq> [] \<and> prefix old (c # cs)")
    case True
    with 2 have "length (replace_scan old [] (c # cs)) \<le> length (drop (length old) (c # cs))"
      by simp
    then show ?thesis by simp
  next
    case False
    with 2 show ?thesis by auto
  qed
qed

lemma replace_scan_shorter:
  assumes "old \<noteq> []" and "sublist old s"
  shows "length (replace_scan old [] s) < length s"
  using assms(2)
proof (induction s)
  case Nil
  then show ?case using assms(1) by simp
next
  case (Cons c cs)
  show ?case
  proof (cases "prefix old (c # cs)")
    case True
    have "length (replace_scan old [] (drop (length old) (c # cs)))
            \<le> length (drop (length old) (c # cs))"
      by (rule replace_scan_length_le)
    moreover have "length (drop (length old) (c # cs)) < length (c # cs)"
      using assms(1) by (cases old) auto
    moreover have "length (replace_scan old [] (c # cs))
        = length (replace_scan old [] (drop (length old) (c # cs)))"
      using True assms(1) by simp
    ultimately show ?thesis by linarith
  next
    case False
    with Cons.prems have "sublist old cs" by (simp add: sublist_Cons_right)
    from Cons.IH [OF this] False show ?thesis by simp
  qed
qed

lemma remove_facade_update_result:
  assumes "files w filename = Some content"
  shows "remove_facade_update_file_content filename w =
           Returned (write_file filename (str_replace content ''Utils_Main'' '''') w)"
  using assms by (simp add: remove_facade_update_file_content_def read_file_def)

lemma write_file_eq_iff:
  "write_file f a w = write_file f b w \<longleftrightarrow> a = b"
proof
  assume "write_file f a w = write_file f b w"
  then have "files (write_file f a w) f = files (write_file f b w) f" by simp
  then show "a = b" by (simp add: write_file_def)
qed simp

text \<open>
  Claim C2 as the specification words it fails. A removal joins the text on its two sides,
  and the joined text can be an occurrence again: from \<open>Utils_Utils_MainMain\<close> the
  update leaves \<open>Utils_Main\<close>, and a second update of that file changes it to the empty
  text.
\<close>

theorem remove_facade_counterexample:
  "remove_facade_update_file_content ''Code.gs''
     \<lparr>files = [''Code.gs'' \<mapsto> ''Utils_Utils_MainMain''], out = []\<rparr>
   = Returned \<lparr>files = [''Code.gs'' \<mapsto> ''Utils_Main''], out = []\<rparr>
 \<and> remove_facade_update_file_content ''Code.gs''
     \<lparr>files = [''Code.gs'' \<mapsto> ''Utils_Main''], out = []\<rparr>
   = Returned \<lparr>files = [''Code.gs'' \<mapsto> ''''], out = []\<rparr>"
proof -
  have 1: "str_replace ''Utils_Utils_MainMain'' ''Utils_Main'' '''' = ''Utils_Main''"
    by code_simp
  have 2: "str_replace ''Utils_Main'' ''Utils_Main'' '''' = ''''"
    by code_simp
  show ?thesis
    by (simp add: remove_facade_update_file_content_def read_file_def write_file_def 1 2)
qed

text \<open>
  Claim C2, amended. The update removes the occurrences of \<open>Utils_Main\<close> that one scan
  from left to right finds: the new content is the concatenation of the pieces of the old
  content between them. A second update changes nothing exactly when the content after
  the first one has no occurrence of \<open>Utils_Main\<close>. The witness is the example of the
  specification, \<open>callUtils_MainThing()\<close>.
\<close>

theorem remove_facade_single_scan:
  assumes "files w f = Some c"
  shows "remove_facade_update_file_content f w =
           Returned (write_file f (concat (split_pieces ''Utils_Main'' c)) w)
       \<and> (and_then (remove_facade_update_file_content f w) (remove_facade_update_file_content f)
            = remove_facade_update_file_content f w
          \<longleftrightarrow> \<not> sublist ''Utils_Main'' (concat (split_pieces ''Utils_Main'' c)))"
proof -
  let ?um = "''Utils_Main''"
  let ?c1 = "concat (split_pieces ?um c)"
  have rs: "str_replace x ?um '''' = replace_scan ?um [] x" for x
    by (simp add: str_replace_def)
  have c1: "str_replace c ?um '''' = ?c1"
    unfolding rs by (rule replace_scan_pieces) simp
  have r1: "remove_facade_update_file_content f w = Returned (write_file f ?c1 w)"
    using remove_facade_update_result [OF assms] c1 by simp
  have r2: "and_then (remove_facade_update_file_content f w) (remove_facade_update_file_content f)
      = Returned (write_file f (replace_scan ?um [] ?c1) w)"
    using remove_facade_update_result [of "write_file f ?c1 w" f ?c1]
    by (simp add: r1 files_write_file write_file_twice rs)
  have "replace_scan ?um [] ?c1 = ?c1 \<longleftrightarrow> \<not> sublist ?um ?c1"
  proof
    assume eq: "replace_scan ?um [] ?c1 = ?c1"
    show "\<not> sublist ?um ?c1"
    proof
      assume "sublist ?um ?c1"
      then have "length (replace_scan ?um [] ?c1) < length ?c1"
        by (intro replace_scan_shorter) simp_all
      with eq show False by simp
    qed
  next
    assume "\<not> sublist ?um ?c1"
    then show "replace_scan ?um [] ?c1 = ?c1" by (rule replace_scan_absent)
  qed
  moreover have "(and_then (remove_facade_update_file_content f w)
        (remove_facade_update_file_content f) = remove_facade_update_file_content f w)
      \<longleftrightarrow> (Returned (write_file f (replace_scan ?um [] ?c1) w) = Returned (write_file f ?c1 w))"
    by (subst r2, subst r1, rule refl)
  ultimately have "and_then (remove_facade_update_file_content f w)
        (remove_facade_update_file_content f) = remove_facade_update_file_content f w
      \<longleftrightarrow> \<not> sublist ?um ?c1"
    by (simp add: write_file_eq_iff)
  with r1 show ?thesis by (rule conjI)
qed

theorem remove_facade_single_scan_witness:
  "remove_facade_update_file_content ''Code.gs''
     \<lparr>files = [''Code.gs'' \<mapsto> ''callUtils_MainThing()''], out = []\<rparr>
   = Returned \<lparr>files = [''Code.gs'' \<mapsto> ''callThing()''], out = []\<rparr>
 \<and> and_then
     (remove_facade_update_file_content ''Code.gs''
        \<lparr>files = [''Code.gs'' \<mapsto> ''callUtils_MainThing()''], out = []\<rparr>)
     (remove_facade_update_file_content ''Code.gs'')
   = Returned \<lparr>files = [''Code.gs'' \<mapsto> ''callThing()''], out = []\<rparr>"
proof -
  let ?w = "\<lparr>files = [''Code.gs'' \<mapsto> ''callUtils_MainThing()''], out = []\<rparr>"
  have a: "files ?w ''Code.gs'' = Some ''callUtils_MainThing()''" by simp
  have p: "concat (split_pieces ''Utils_Main'' ''callUtils_MainThing()'') = ''callThing()''"
    by code_simp
  have n: "\<not> sublist ''Utils_Main'' ''callThing()''"
    by (simp add: sublist_Cons_right)
  have e: "write_file ''Code.gs'' ''callThing()'' ?w
      = \<lparr>files = [''Code.gs'' \<mapsto> ''callThing()''], out = []\<rparr>"
    by (simp add: write_file_def)
  from remove_facade_single_scan [OF a, unfolded p e] n
  have 1: "remove_facade_update_file_content ''Code.gs'' ?w
      = Returned \<lparr>files = [''Code.gs'' \<mapsto> ''callThing()''], out = []\<rparr>"
    and 2: "and_then (remove_facade_update_file_content ''Code.gs'' ?w)
        (remove_facade_update_file_content ''Code.gs'')
      = remove_facade_update_file_content ''Code.gs'' ?w"
    by blast+
  show ?thesis using 1 2 by simp
qed

section \<open>What the three patterns match\<close>

text \<open>
  The states that \<open>run\<close> lists for a pattern are described by membership, one
  constructor at a time; the first state of the list, which is the match, is computed for
  the texts that do match.
\<close>

lemma in_run_Lit:
  "st' \<in> set (run (Lit l) (p, t, g, r)) \<longleftrightarrow>
     prefix l r \<and> st' = (if l = [] then p else Some (last l), t @ l, g, drop (length l) r)"
  by auto

lemma in_run_WordB:
  "st' \<in> set (run WordB (p, t, g, r)) \<longleftrightarrow>
     word_before p \<noteq> word_after r \<and> st' = (p, t, g, r)"
  by auto

lemma in_run_Seq:
  "st' \<in> set (run (Seq a b) st) \<longleftrightarrow> (\<exists>m. m \<in> set (run a st) \<and> st' \<in> set (run b m))"
  by auto

lemma in_run_Alt:
  "st' \<in> set (run (Alt a b) st) \<longleftrightarrow> st' \<in> set (run a st) \<or> st' \<in> set (run b st)"
  by auto

lemma in_run_Grp:
  "(p', t', g', r') \<in> set (run (Grp a) (p, t, g, r)) \<longleftrightarrow>
     (\<exists>g0. (p', t', g0, r') \<in> set (run a (p, t, g, r)) \<and> g' = Some (drop (length t) t'))"
  by force

lemma match_at_SomeD:
  assumes "match_at e p s = Some (t, g)"
  shows "\<exists>p' r'. (p', t, g, r') \<in> set (run e (p, [], None, s))"
  using assms by (auto simp: match_at_def split: list.splits)

lemma prefix_then_drop:
  assumes "prefix a s" and "prefix b (drop (length a) s)"
  shows "prefix (a @ b) s"
  using assms by (auto simp: prefix_def)

lemma is_word_letters:
  "is_word CHR ''C''" "is_word CHR ''E''" "is_word CHR ''A''" "is_word CHR ''D''"
  "is_word CHR ''F''" "is_word CHR ''M''" "is_word CHR ''G''" "is_word CHR ''s''"
  by (simp_all add: is_word_def)

lemma token_step:
  assumes "prefix l s" and "prefix u (drop (length l) s)"
    and "word_before p = (\<not> word_after s)"
    and "l \<noteq> []" and "is_word (hd l)"
    and "\<not> word_after (drop (length u) (drop (length l) s))"
  shows "prefix (l @ u) s \<and> \<not> word_before p \<and> \<not> word_after (drop (length (l @ u)) s)"
proof -
  have "prefix (l @ u) s" using assms(1,2) by (rule prefix_then_drop)
  moreover have "word_after s"
    using assms(1,4,5) by (cases l; cases s) auto
  moreover have "drop (length (l @ u)) s = drop (length u) (drop (length l) s)"
    by (simp add: add.commute)
  ultimately show ?thesis using assms(3,6) by simp
qed

lemma run_pat2_sound:
  assumes "(p', t, g, r') \<in> set (run pat2 (p, [], None, s))"
  shows "t \<in> {''CoreUtils'', ''EmailUtils'', ''AnalysisUtils'', ''DataUtils''}
       \<and> g = Some t \<and> prefix t s \<and> \<not> word_before p \<and> \<not> word_after (drop (length t) s)"
  using assms unfolding pat2_def
  apply (simp add: in_run_Grp in_run_Seq in_run_Alt in_run_Lit in_run_WordB
        del: run.simps)
  apply (elim conjE exE disjE)
  subgoal using token_step [of "''Core''" s "''Utils''" p] by (simp add: is_word_letters)
  subgoal using token_step [of "''Email''" s "''Utils''" p] by (simp add: is_word_letters)
  subgoal using token_step [of "''Analysis''" s "''Utils''" p] by (simp add: is_word_letters)
  subgoal using token_step [of "''Data''" s "''Utils''" p] by (simp add: is_word_letters)
  done

lemma run_pat2_complete:
  assumes "t \<in> {''CoreUtils'', ''EmailUtils'', ''AnalysisUtils'', ''DataUtils''}"
    and "\<not> word_before p" and "\<not> word_after r"
  shows "run pat2 (p, [], None, t @ r) = [(Some CHR ''s'', t, Some t, r)]"
  using assms unfolding pat2_def
  by (elim insertE emptyE) (simp_all add: is_word_letters)

lemma match_at_pat2_iff:
  "match_at pat2 p s = Some (t, g) \<longleftrightarrow>
     t \<in> {''CoreUtils'', ''EmailUtils'', ''AnalysisUtils'', ''DataUtils''}
   \<and> g = Some t \<and> prefix t s \<and> \<not> word_before p \<and> \<not> word_after (drop (length t) s)"
  (is "?L \<longleftrightarrow> ?R")
proof
  assume ?L
  then obtain p' r' where "(p', t, g, r') \<in> set (run pat2 (p, [], None, s))"
    using match_at_SomeD by blast
  then show ?R by (rule run_pat2_sound)
next
  assume a: ?R
  then obtain r where s: "s = t @ r" unfolding prefix_def by blast
  from a s have "\<not> word_after r" by simp
  with a have "run pat2 (p, [], None, t @ r) = [(Some CHR ''s'', t, Some t, r)]"
    by (intro run_pat2_complete) simp_all
  then show ?L
    using a s by (simp add: match_at_def)
qed

lemma is_word_t: "is_word CHR ''t''"
  by (simp add: is_word_def)

lemma run_pat3_sound:
  assumes "(p', t, g, r') \<in> set (run pat3 (p, [], None, s))"
  shows "t \<in> {''FundamentalMetrics'', ''MacroeconomicFactors'', ''MarketIndicators'',
               ''MarketSentiment'', ''GeopoliticalRisks''}
       \<and> g = Some t \<and> prefix t s \<and> \<not> word_before p \<and> \<not> word_after (drop (length t) s)"
  using assms unfolding pat3_def
  apply (simp add: in_run_Grp in_run_Seq in_run_Alt in_run_Lit in_run_WordB
        del: run.simps)
  apply (elim conjE exE disjE)
  subgoal using token_step [of "''FundamentalMetrics''" s "[]" p]
    by (simp add: is_word_letters is_word_t)
  subgoal using token_step [of "''MacroeconomicFactors''" s "[]" p]
    by (simp add: is_word_letters is_word_t)
  subgoal using token_step [of "''MarketIndicators''" s "[]" p]
    by (simp add: is_word_letters is_word_t)
  subgoal using token_step [of "''MarketSentiment''" s "[]" p]
    by (simp add: is_word_letters is_word_t)
  subgoal using token_step [of "''GeopoliticalRisks''" s "[]" p]
    by (simp add: is_word_letters is_word_t)
  done

lemma run_pat3_complete:
  assumes "t \<in> {''FundamentalMetrics'', ''MacroeconomicFactors'', ''MarketIndicators'',
               ''MarketSentiment'', ''GeopoliticalRisks''}"
    and "\<not> word_before p" and "\<not> word_after r"
  shows "run pat3 (p, [], None, t @ r) = [(Some (last t), t, Some t, r)]"
  using assms unfolding pat3_def
  by (elim insertE emptyE) (simp_all add: is_word_letters is_word_t)

lemma match_at_pat3_iff:
  "match_at pat3 p s = Some (t, g) \<longleftrightarrow>
     t \<in> {''FundamentalMetrics'', ''MacroeconomicFactors'', ''MarketIndicators'',
          ''MarketSentiment'', ''GeopoliticalRisks''}
   \<and> g = Some t \<and> prefix t s \<and> \<not> word_before p \<and> \<not> word_after (drop (length t) s)"
  (is "?L \<longleftrightarrow> ?R")
proof
  assume ?L
  then obtain p' r' where "(p', t, g, r') \<in> set (run pat3 (p, [], None, s))"
    using match_at_SomeD by blast
  then show ?R by (rule run_pat3_sound)
next
  assume a: ?R
  then obtain r where s: "s = t @ r" unfolding prefix_def by blast
  from a s have "\<not> word_after r" by simp
  with a have "run pat3 (p, [], None, t @ r) = [(Some (last t), t, Some t, r)]"
    by (intro run_pat3_complete) simp_all
  then show ?L
    using a s by (simp add: match_at_def)
qed

lemma in_run_Cls:
  "st' \<in> set (run (Cls cl) (p, t, g, r)) \<longleftrightarrow>
     (\<exists>c r'. r = c # r' \<and> in_class cl c \<and> st' = (Some c, t @ [c], g, r'))"
  by (cases r) auto

lemma in_star:
  assumes "st' \<in> set (star cl (p, t, g, r))"
  shows "\<exists>x. prefix x r \<and> (\<forall>c\<in>set x. in_class cl c)
           \<and> st' = (if x = [] then p else Some (last x), t @ x, g, drop (length x) r)"
  using assms
proof (induction r arbitrary: p t)
  case Nil
  then show ?case by simp
next
  case (Cons c r)
  show ?case
  proof (cases "in_class cl c \<and> st' \<in> set (star cl (Some c, t @ [c], g, r))")
    case True
    with Cons.IH [of "Some c" "t @ [c]"] obtain x
      where x: "prefix x r" "\<forall>c\<in>set x. in_class cl c"
        "st' = (if x = [] then Some c else Some (last x), (t @ [c]) @ x, g, drop (length x) r)"
      by blast
    have "prefix (c # x) (c # r)" using x(1) by simp
    moreover have "\<forall>d\<in>set (c # x). in_class cl d" using x(2) True by simp
    moreover have "st' = (if c # x = [] then p else Some (last (c # x)), t @ c # x, g,
        drop (length (c # x)) (c # r))"
      using x(3) by simp
    ultimately show ?thesis by blast
  next
    case False
    with Cons.prems have "st' = (p, t, g, c # r)" by (auto split: if_splits)
    then have "prefix [] (c # r) \<and> (\<forall>d\<in>set []. in_class cl d)
      \<and> st' = (if [] = [] then p else Some (last []), t @ [], g, drop (length []) (c # r))"
      by simp
    then show ?thesis by blast
  qed
qed

lemma in_run_Plus:
  assumes "st' \<in> set (run (Plus cl) (p, t, g, r))"
  shows "\<exists>x. x \<noteq> [] \<and> prefix x r \<and> (\<forall>c\<in>set x. in_class cl c)
           \<and> st' = (Some (last x), t @ x, g, drop (length x) r)"
proof (cases r)
  case Nil
  with assms show ?thesis by simp
next
  case (Cons c r1)
  with assms have c: "in_class cl c" and "st' \<in> set (star cl (Some c, t @ [c], g, r1))"
    by (auto split: if_splits)
  from in_star [OF this(2)] obtain x
    where x: "prefix x r1" "\<forall>c\<in>set x. in_class cl c"
      "st' = (if x = [] then Some c else Some (last x), (t @ [c]) @ x, g, drop (length x) r1)"
    by blast
  have "c # x \<noteq> [] \<and> prefix (c # x) r \<and> (\<forall>d\<in>set (c # x). in_class cl d)
      \<and> st' = (Some (last (c # x)), t @ c # x, g, drop (length (c # x)) r)"
    using x c Cons by simp
  then show ?thesis by blast
qed

lemma star_commit:
  assumes K: "\<And>p t c r. c \<notin> set Q \<Longrightarrow> K (p, t, g, c # r) = []"
  shows "concat (map K (star (NoneOf Q) (p, t, g, r))) =
           K (if takeWhile (\<lambda>c. c \<notin> set Q) r = [] then p
              else Some (last (takeWhile (\<lambda>c. c \<notin> set Q) r)),
              t @ takeWhile (\<lambda>c. c \<notin> set Q) r, g, dropWhile (\<lambda>c. c \<notin> set Q) r)"
proof (induction r arbitrary: p t)
  case Nil
  show ?case by simp
next
  case (Cons c r)
  show ?case
  proof (cases "c \<in> set Q")
    case True
    then show ?thesis by simp
  next
    case False
    then show ?thesis
      using Cons.IH [of "Some c" "t @ [c]"] K [OF False] by simp
  qed
qed

lemma prefix_eq_append_drop:
  assumes "prefix a s"
  shows "s = a @ drop (length a) s"
  using assms by (auto simp: prefix_def)

lemma run_pat1_sound:
  assumes "(p', t, g, r') \<in> set (run pat1 (p, [], None, s))"
  shows "\<exists>q1 X q2. q1 \<in> set quotes \<and> q2 \<in> set quotes \<and> X \<noteq> [] \<and> (\<forall>c\<in>set X. c \<notin> set quotes)
           \<and> t = ''include('' @ q1 # X @ q2 # '')'' \<and> g = Some X \<and> s = t @ r'"
proof -
  from assms obtain m1 m2 m3 m4 where
    m1: "m1 \<in> set (run (Lit ''include('') (p, [], None, s))" and
    m2: "m2 \<in> set (run (Cls (OneOf quotes)) m1)" and
    m3: "m3 \<in> set (run (Grp (Plus (NoneOf quotes))) m2)" and
    m4: "m4 \<in> set (run (Cls (OneOf quotes)) m3)" and
    m5: "(p', t, g, r') \<in> set (run (Lit '')'') m4)"
    unfolding pat1_def in_run_Seq by blast
  from m1 have s1: "s = ''include('' @ drop (length ''include('') s"
    and e1: "m1 = (Some CHR ''('', ''include('', None, drop (length ''include('') s)"
    using prefix_eq_append_drop [of "''include(''" s] by (simp_all add: in_run_Lit del: run.simps)
  from m2 obtain q1 r2 where s2: "drop (length ''include('') s = q1 # r2" and q1: "q1 \<in> set quotes"
    and e2: "m2 = (Some q1, ''include('' @ [q1], None, r2)"
    unfolding e1 in_run_Cls by auto
  obtain p3 t3 g3 r3 where e3: "m3 = (p3, t3, g3, r3)" by (cases m3) auto
  from m3 obtain g0 where m3': "(p3, t3, g0, r3) \<in> set (run (Plus (NoneOf quotes)) m2)"
    and g3: "g3 = Some (drop (length (''include('' @ [q1])) t3)"
    unfolding e2 e3 in_run_Grp by auto
  from in_run_Plus [OF m3' [unfolded e2]] obtain X where X: "X \<noteq> []" "prefix X r2"
    "\<forall>c\<in>set X. c \<notin> set quotes" and t3: "t3 = (''include('' @ [q1]) @ X"
    and r3: "r3 = drop (length X) r2"
    by auto
  have s3: "r2 = X @ r3" using X(2) r3 by (simp add: prefix_eq_append_drop [symmetric])
  from m4 obtain q2 r4 where s4: "r3 = q2 # r4" and q2: "q2 \<in> set quotes"
    and e4: "m4 = (Some q2, t3 @ [q2], g3, r4)"
    unfolding e3 in_run_Cls by auto
  from m5 have s5: "r4 = '')'' @ r'" and t: "t = (t3 @ [q2]) @ '')''" and g: "g = g3"
    using prefix_eq_append_drop [of "'')''" r4] unfolding e4
    by (simp_all add: in_run_Lit del: run.simps)
  have "t = ''include('' @ q1 # X @ q2 # '')''" using t t3 by simp
  moreover have "g = Some X" using g g3 t3 by simp
  moreover have "s = t @ r'"
    using s1 s2 s3 s4 s5 t t3 by (metis append.assoc append_Cons append_Nil)
  ultimately show ?thesis using q1 q2 X(1,3) by blast
qed

lemma run_pat1_complete:
  assumes "q1 \<in> set quotes" and "q2 \<in> set quotes" and "X \<noteq> []"
    and "\<forall>c\<in>set X. c \<notin> set quotes"
  shows "run pat1 (p, [], None, ''include('' @ q1 # X @ q2 # '')'' @ rest) =
           [(Some CHR '')'', ''include('' @ q1 # X @ q2 # '')'', Some X, rest)]"
proof -
  obtain x xs where X: "X = x # xs" using assms(3) by (cases X) auto
  have x: "x \<notin> set quotes" and xs: "\<forall>c\<in>set xs. c \<notin> set quotes"
    using assms(4) X by simp_all
  let ?t2 = "''include('' @ [q1]"
  let ?G = "\<lambda>(p', t', g', r'). (p', t', Some (drop (length ?t2) t'), r')"
  let ?R3 = "Seq (Cls (OneOf quotes)) (Lit '')'')"
  let ?K = "\<lambda>st. run ?R3 (?G st)"
  have tw: "takeWhile (\<lambda>c. c \<notin> set quotes) (xs @ q2 # '')'' @ rest) = xs"
    using xs assms(2) by (simp add: takeWhile_append2)
  have dw: "dropWhile (\<lambda>c. c \<notin> set quotes) (xs @ q2 # '')'' @ rest) = q2 # '')'' @ rest"
    using xs assms(2) by (simp add: dropWhile_append2)
  have K0: "\<And>p t c r. c \<notin> set quotes \<Longrightarrow> ?K (p, t, None, c # r) = []"
    by simp
  have commit: "concat (map ?K (star (NoneOf quotes)
        (Some x, ?t2 @ [x], None, xs @ q2 # '')'' @ rest))) =
      ?K (if xs = [] then Some x else Some (last xs), (?t2 @ [x]) @ xs, None, q2 # '')'' @ rest)"
    using star_commit [of quotes ?K None "Some x" "?t2 @ [x]" "xs @ q2 # '')'' @ rest", OF K0]
    unfolding tw dw by simp
  have last: "?K (if xs = [] then Some x else Some (last xs), (?t2 @ [x]) @ xs, None,
        q2 # '')'' @ rest) =
      [(Some CHR '')'', ''include('' @ q1 # X @ q2 # '')'', Some X, rest)]"
    using assms(2) by (simp add: X)
  have "run pat1 (p, [], None, ''include('' @ q1 # X @ q2 # '')'' @ rest) =
      concat (map ?K (star (NoneOf quotes) (Some x, ?t2 @ [x], None, xs @ q2 # '')'' @ rest)))"
    unfolding pat1_def using assms(1) x
    by (simp add: X map_concat comp_def case_prod_unfold)
  then show ?thesis using commit last by simp
qed

lemma match_at_pat1_call:
  assumes "q1 \<in> set quotes" and "q2 \<in> set quotes" and "X \<noteq> []"
    and "\<forall>c\<in>set X. c \<notin> set quotes"
  shows "match_at pat1 p (''include('' @ q1 # X @ q2 # '')'' @ rest) =
           Some (''include('' @ q1 # X @ q2 # '')'', Some X)"
  using run_pat1_complete [OF assms, of p rest] by (simp add: match_at_def)

lemma match_at_pat1_SomeD:
  assumes "match_at pat1 p s = Some (t, g)"
  shows "\<exists>q1 X q2 r'. q1 \<in> set quotes \<and> q2 \<in> set quotes \<and> X \<noteq> []
           \<and> (\<forall>c\<in>set X. c \<notin> set quotes)
           \<and> t = ''include('' @ q1 # X @ q2 # '')'' \<and> g = Some X \<and> s = t @ r'"
proof -
  from match_at_SomeD [OF assms] obtain p' r'
    where "(p', t, g, r') \<in> set (run pat1 (p, [], None, s))" by blast
  from run_pat1_sound [OF this] show ?thesis by blast
qed

lemma re_sub_no_match:
  assumes "match_at e p (c # cs) = None"
  shows "re_sub e repl p (c # cs) = c # re_sub e repl (Some c) cs"
  using assms by simp

lemma re_sub_match:
  assumes "match_at e p (c # cs) = Some (t, g)" and "t \<noteq> []"
  shows "re_sub e repl p (c # cs) =
           repl g @ re_sub e repl (Some (last t)) (drop (length t) (c # cs))"
  using assms by simp

lemma match_at_pat1_prev: "match_at pat1 p s = match_at pat1 p' s"
proof -
  have one: "match_at pat1 b s = Some tg" if "match_at pat1 a s = Some tg" for a b tg
  proof -
    obtain t g where tg: "tg = (t, g)" by (cases tg) auto
    from match_at_pat1_SomeD [OF that [unfolded tg]] obtain q1 X q2 r'
      where h: "q1 \<in> set quotes" "q2 \<in> set quotes" "X \<noteq> []" "\<forall>c\<in>set X. c \<notin> set quotes"
        and t: "t = ''include('' @ q1 # X @ q2 # '')''" and g: "g = Some X" and s: "s = t @ r'"
      by blast
    have "s = ''include('' @ q1 # X @ q2 # '')'' @ r'" using s t by simp
    then show ?thesis
      using match_at_pat1_call [OF h, of b r'] t g tg by simp
  qed
  show ?thesis
  proof (cases "match_at pat1 p s")
    case None
    then show ?thesis using one [of p' _ p] by (cases "match_at pat1 p' s") auto
  next
    case (Some tg)
    then show ?thesis using one [of p tg p'] by simp
  qed
qed

lemma re_sub_pat1_prev: "re_sub pat1 repl p s = re_sub pat1 repl p' s"
proof (induction s arbitrary: p p' rule: length_induct)
  case (1 s)
  show ?case
  proof (cases s)
    case Nil
    then show ?thesis by simp
  next
    case (Cons c cs)
    have m: "match_at pat1 p (c # cs) = match_at pat1 p' (c # cs)"
      by (rule match_at_pat1_prev)
    show ?thesis unfolding Cons re_sub.simps m by simp
  qed
qed

lemma pass1_call:
  assumes "q1 \<in> set quotes" and "q2 \<in> set quotes" and "X \<noteq> []"
    and "\<forall>c\<in>set X. c \<notin> set quotes"
  shows "re_sub pat1 repl_include p (''include('' @ q1 # X @ q2 # '')'' @ rest) =
           ''include(\"Utils_'' @ X @ ''\")'' @ pass1 rest"
proof -
  let ?call = "''include('' @ q1 # X @ q2 # '')''"
  have m: "match_at pat1 p (CHR ''i'' # (''nclude('' @ q1 # X @ q2 # '')'' @ rest))
             = Some (?call, Some X)"
    using match_at_pat1_call [OF assms, of p rest] by simp
  have d: "drop (length ?call) (CHR ''i'' # (''nclude('' @ q1 # X @ q2 # '')'' @ rest)) = rest"
    by simp
  have "re_sub pat1 repl_include p (CHR ''i'' # (''nclude('' @ q1 # X @ q2 # '')'' @ rest)) =
      repl_include (Some X) @ re_sub pat1 repl_include (Some (last ?call)) rest"
    using re_sub_match [OF m, of repl_include] unfolding d by simp
  moreover have "re_sub pat1 repl_include (Some (last ?call)) rest = pass1 rest"
    unfolding pass1_def by (rule re_sub_pat1_prev)
  ultimately show ?thesis by (simp add: repl_include_def)
qed

lemma include_has_no_quote: "\<forall>c\<in>set ''include(''. c \<notin> set quotes"
  by (simp add: quotes_def)

lemma no_match_before_include:
  assumes "P \<noteq> []" and "\<not> sublist ''include('' P"
  shows "match_at pat1 p (P @ ''include('' @ tail) = None"
proof (rule ccontr)
  assume "match_at pat1 p (P @ ''include('' @ tail) \<noteq> None"
  then obtain t g where "match_at pat1 p (P @ ''include('' @ tail) = Some (t, g)" by auto
  from match_at_pat1_SomeD [OF this] obtain q1 rest'
    where q1: "q1 \<in> set quotes" and s: "P @ ''include('' @ tail = ''include('' @ q1 # rest'"
    by auto
  have pre: "prefix ''include('' (P @ ''include('' @ tail)" unfolding s by simp
  have at8: "(P @ ''include('' @ tail) ! 8 = q1" unfolding s by simp
  show False
  proof (cases "length ''include('' \<le> length P")
    case True
    with pre have "prefix ''include('' P" by (rule prefix_within)
    then show False using assms(2) by (auto dest: prefix_imp_sublist)
  next
    case False
    then have short: "length P < 8" by simp
    have pos: "0 < length P" using assms(1) by simp
    have l8: "length ''include('' = 8" by simp
    have lt: "8 - length P < length ''include(''" unfolding l8 using pos by linarith
    have "(P @ ''include('' @ tail) ! 8 = (''include('' @ tail) ! (8 - length P)"
      using short by (simp add: nth_append)
    also have "\<dots> = ''include('' ! (8 - length P)"
      using lt by (rule nth_append_left)
    finally have "q1 = ''include('' ! (8 - length P)" using at8 by simp
    moreover have "''include('' ! (8 - length P) \<in> set ''include(''"
      using lt by (rule nth_mem)
    ultimately show False using q1 include_has_no_quote by blast
  qed
qed

lemma re_sub_pat1_skip:
  assumes "\<not> sublist ''include('' pre"
  shows "re_sub pat1 repl p (pre @ ''include('' @ tail) =
           pre @ re_sub pat1 repl None (''include('' @ tail)"
  using assms
proof (induction pre arbitrary: p)
  case Nil
  show ?case unfolding append_Nil by (rule re_sub_pat1_prev)
next
  case (Cons a pre)
  have "match_at pat1 p ((a # pre) @ ''include('' @ tail) = None"
    using Cons.prems by (intro no_match_before_include) simp_all
  then have "re_sub pat1 repl p (a # (pre @ ''include('' @ tail)) =
      a # re_sub pat1 repl (Some a) (pre @ ''include('' @ tail)"
    by (intro re_sub_no_match) simp
  moreover have "\<not> sublist ''include('' pre"
    using Cons.prems by (simp add: sublist_Cons_right)
  ultimately show ?case using Cons.IH [of "Some a"] by simp
qed

lemma two_in_filter:
  assumes "P q1" and "P q2"
  shows "2 \<le> length (filter P (a @ q1 # b @ q2 # c))"
  using assms by simp

lemma match_needs_two_quotes:
  assumes "match_at pat1 p s = Some (t, g)"
  shows "2 \<le> length (filter (\<lambda>c. c \<in> set quotes) s)"
proof -
  from match_at_pat1_SomeD [OF assms] obtain q1 X q2 r'
    where "q1 \<in> set quotes" "q2 \<in> set quotes"
      and "s = ''include('' @ q1 # X @ q2 # ('')'' @ r')"
    by auto
  then show ?thesis using two_in_filter [of "\<lambda>c. c \<in> set quotes" q1 q2] by blast
qed

lemma re_sub_pat1_few_quotes:
  assumes "length (filter (\<lambda>c. c \<in> set quotes) s) < 2"
  shows "re_sub pat1 repl p s = s"
  using assms
proof (induction s arbitrary: p)
  case Nil
  show ?case by simp
next
  case (Cons c cs)
  have "match_at pat1 p (c # cs) = None"
    using Cons.prems match_needs_two_quotes [of p "c # cs"]
    by (cases "match_at pat1 p (c # cs)") force+
  then have "re_sub pat1 repl p (c # cs) = c # re_sub pat1 repl (Some c) cs"
    by (rule re_sub_no_match)
  moreover have "length (filter (\<lambda>c. c \<in> set quotes) cs) < 2"
    using Cons.prems by (simp split: if_splits)
  ultimately show ?case using Cons.IH by simp
qed

lemma match_at_pat1_taken: "match_at pat1 p s = Some (t, g) \<Longrightarrow> t \<noteq> []"
  by (auto dest: match_at_pat1_SomeD)

lemma match_at_pat2_taken: "match_at pat2 p s = Some (t, g) \<Longrightarrow> t \<noteq> []"
  unfolding match_at_pat2_iff by (elim conjE insertE emptyE) simp_all

lemma match_at_pat3_taken: "match_at pat3 p s = Some (t, g) \<Longrightarrow> t \<noteq> []"
  unfolding match_at_pat3_iff by (elim conjE insertE emptyE) simp_all

text \<open>
  Pass 2 on a text cut in two. The cut is inside a word when a word character stands on
  both sides of it; at any other cut the pass rewrites the two parts as it rewrites them
  alone.
\<close>

lemma pat2_token_word:
  assumes "t \<in> {''CoreUtils'', ''EmailUtils'', ''AnalysisUtils'', ''DataUtils''}"
  shows "\<forall>c\<in>set t. is_word c"
proof -
  have "\<forall>c\<in>set ''CoreUtils''. is_word c" "\<forall>c\<in>set ''EmailUtils''. is_word c"
    "\<forall>c\<in>set ''AnalysisUtils''. is_word c" "\<forall>c\<in>set ''DataUtils''. is_word c"
    by (simp_all add: is_word_def)
  with assms show ?thesis by (elim insertE emptyE) (simp_all only:)
qed

lemma pat2_token_not_Nil:
  assumes "t \<in> {''CoreUtils'', ''EmailUtils'', ''AnalysisUtils'', ''DataUtils''}"
  shows "t \<noteq> []"
  using assms by (elim insertE emptyE) simp_all

lemma word_after_append:
  assumes "x \<noteq> []"
  shows "word_after (x @ s) = word_after x"
  using assms by (cases x) simp_all

lemma word_after_hd:
  assumes "s \<noteq> []" and "is_word (hd s)"
  shows "word_after s"
  using assms by (cases s) simp_all

lemma option_eq_by_Some:
  assumes "\<And>y. a = Some y \<longleftrightarrow> b = Some y"
  shows "a = b"
proof (cases a)
  case None
  show ?thesis
  proof (cases b)
    case None
    with \<open>a = None\<close> show ?thesis by simp
  next
    case (Some y)
    then have "a = Some y" using assms [of y] by simp
    with Some show ?thesis by simp
  qed
next
  case (Some y)
  then have "b = Some y" using assms [of y] by simp
  with Some show ?thesis by simp
qed

lemma pat2_token_starts_word:
  assumes "t \<in> {''CoreUtils'', ''EmailUtils'', ''AnalysisUtils'', ''DataUtils''}"
    and "prefix t s"
  shows "word_after s"
proof -
  from assms(2) obtain r where s: "s = t @ r" unfolding prefix_def by blast
  have n: "t \<noteq> []" using assms(1) by (rule pat2_token_not_Nil)
  then have "hd t \<in> set t" by (rule hd_in_set)
  with pat2_token_word [OF assms(1)] have "is_word (hd t)" by (rule bspec)
  with n have "word_after t" by (rule word_after_hd)
  then show ?thesis unfolding s word_after_append [OF n] .
qed

lemma pat2_ends_same:
  assumes t: "t \<in> {''CoreUtils'', ''EmailUtils'', ''AnalysisUtils'', ''DataUtils''}"
    and x: "x \<noteq> []" and J: "\<not> (is_word (last x) \<and> word_after s)"
  shows "prefix t (x @ s) \<and> \<not> word_after (drop (length t) (x @ s))
         \<longleftrightarrow> prefix t x \<and> \<not> word_after (drop (length t) x)"
    (is "?L \<longleftrightarrow> ?R")
proof
  assume L: ?L
  have inside: "prefix t x"
  proof (rule ccontr)
    assume n: "\<not> prefix t x"
    with L obtain us where tu: "t = x @ us" and pu: "prefix us s"
      by (auto simp: prefix_append)
    have us: "us \<noteq> []" using n tu by auto
    have "is_word (last x)" using pat2_token_word [OF t] x tu by simp
    moreover have "is_word (hd us)" using pat2_token_word [OF t] us tu by simp
    then have "word_after s"
      using pu us by (cases us; cases s) auto
    ultimately show False using J by simp
  qed
  then obtain r where xr: "x = t @ r" by (auto simp: prefix_def)
  have "\<not> word_after r"
  proof (cases "r = []")
    case True
    then show ?thesis by simp
  next
    case False
    with L xr show ?thesis by (simp add: word_after_append)
  qed
  with inside xr show ?R by simp
next
  assume R: ?R
  then obtain r where xr: "x = t @ r" by (auto simp: prefix_def)
  have nr: "\<not> word_after r" using R xr by simp
  have "\<not> word_after (r @ s)"
  proof (cases "r = []")
    case True
    then have "x = t" using xr by simp
    then have "is_word (last x)"
      using pat2_token_word [OF t] pat2_token_not_Nil [OF t] by simp
    with J True show ?thesis by simp
  next
    case False
    with nr show ?thesis by (simp add: word_after_append)
  qed
  with R xr show ?L by simp
qed

lemma match_at_pat2_append:
  assumes "x \<noteq> []" and "\<not> (is_word (last x) \<and> word_after s)"
  shows "match_at pat2 p (x @ s) = match_at pat2 p x"
proof (rule option_eq_by_Some)
  fix y :: "string \<times> string option"
  obtain t g where y: "y = (t, g)" by (cases y) auto
  show "match_at pat2 p (x @ s) = Some y \<longleftrightarrow> match_at pat2 p x = Some y"
    unfolding y match_at_pat2_iff
    using pat2_ends_same [OF _ assms, of t] by blast
qed

lemma match_at_pat2_prev:
  assumes "word_before p = word_before p' \<or> \<not> word_after s"
  shows "match_at pat2 p s = match_at pat2 p' s"
proof (rule option_eq_by_Some)
  fix y :: "string \<times> string option"
  obtain t g where y: "y = (t, g)" by (cases y) auto
  show "match_at pat2 p s = Some y \<longleftrightarrow> match_at pat2 p' s = Some y"
    unfolding y match_at_pat2_iff
    using assms pat2_token_starts_word [of t s] by blast
qed

lemma re_sub_pat2_prev:
  assumes "word_before p = word_before p' \<or> \<not> word_after s"
  shows "re_sub pat2 repl p s = re_sub pat2 repl p' s"
proof (cases s)
  case Nil
  then show ?thesis by simp
next
  case (Cons c cs)
  have m: "match_at pat2 p (c # cs) = match_at pat2 p' (c # cs)"
    using assms unfolding Cons by (rule match_at_pat2_prev)
  show ?thesis unfolding Cons re_sub.simps m by simp
qed

lemma match_at_pat2_prefix:
  assumes "match_at pat2 p s = Some (t, g)"
  shows "t \<noteq> [] \<and> (\<exists>r. s = t @ r)
       \<and> t \<in> {''CoreUtils'', ''EmailUtils'', ''AnalysisUtils'', ''DataUtils''}
       \<and> g = Some t \<and> \<not> word_before p \<and> \<not> word_after (drop (length t) s)"
proof -
  from assms have h: "t \<in> {''CoreUtils'', ''EmailUtils'', ''AnalysisUtils'', ''DataUtils''}"
    "g = Some t" "prefix t s" "\<not> word_before p" "\<not> word_after (drop (length t) s)"
    unfolding match_at_pat2_iff by blast+
  from h(3) obtain r where "s = t @ r" unfolding prefix_def by blast
  with h pat2_token_not_Nil [OF h(1)] show ?thesis by blast
qed

lemma re_sub_pat2_append:
  assumes "\<not> (x \<noteq> [] \<and> is_word (last x) \<and> word_after s)"
  shows "re_sub pat2 repl p (x @ s) =
           re_sub pat2 repl p x @ re_sub pat2 repl (if x = [] then p else Some (last x)) s"
  using assms
proof (induction x arbitrary: p rule: length_induct)
  case (1 x)
  show ?case
  proof (cases x)
    case Nil
    then show ?thesis by simp
  next
    case (Cons c cs)
    have J: "\<not> (is_word (last x) \<and> word_after s)" using "1.prems" Cons by simp
    have m: "match_at pat2 p (c # (cs @ s)) = match_at pat2 p (c # cs)"
      using match_at_pat2_append [of x s p] J Cons by simp
    show ?thesis
    proof (cases "match_at pat2 p (c # cs)")
      case None
      have Jc: "\<not> (cs \<noteq> [] \<and> is_word (last cs) \<and> word_after s)"
        using J Cons by auto
      have "re_sub pat2 repl (Some c) (cs @ s) =
          re_sub pat2 repl (Some c) cs
          @ re_sub pat2 repl (if cs = [] then Some c else Some (last cs)) s"
        using "1.IH" Jc Cons by simp
      moreover have "(if cs = [] then Some c else Some (last cs)) = Some (last x)"
        using Cons by simp
      moreover have "re_sub pat2 repl p (c # (cs @ s)) = c # re_sub pat2 repl (Some c) (cs @ s)"
        using None m by simp
      moreover have "re_sub pat2 repl p (c # cs) = c # re_sub pat2 repl (Some c) cs"
        using None by simp
      ultimately show ?thesis using Cons by simp
    next
      case (Some tg)
      obtain t g where tg: "tg = (t, g)" by (cases tg) auto
      from match_at_pat2_prefix [OF Some [unfolded tg]] obtain r
        where t: "t \<noteq> []" and xr: "c # cs = t @ r" by blast
      have lr: "length r < length x" using xr Cons t by (metis length_append length_greater_0_conv less_add_same_cancel2 add.commute)
      have Jr: "\<not> (r \<noteq> [] \<and> is_word (last r) \<and> word_after s)"
        using J Cons xr by (metis last_appendR)
      have ih: "re_sub pat2 repl (Some (last t)) (r @ s) =
          re_sub pat2 repl (Some (last t)) r
          @ re_sub pat2 repl (if r = [] then Some (last t) else Some (last r)) s"
        using "1.IH" lr Jr by blast
      have pv: "(if r = [] then Some (last t) else Some (last r)) = Some (last x)"
        using Cons xr t by (metis append_Nil2 last_appendR)
      have d1: "drop (length t) (c # (cs @ s)) = r @ s"
        using xr by (metis append.assoc append_Cons append_eq_conv_conj)
      have d2: "drop (length t) (c # cs) = r"
        using xr by (metis append_eq_conv_conj)
      have a: "re_sub pat2 repl p (c # (cs @ s)) =
          repl g @ re_sub pat2 repl (Some (last t)) (r @ s)"
        using re_sub_match [of pat2 p c "cs @ s" t g repl] Some m tg t d1 by simp
      have b: "re_sub pat2 repl p (c # cs) = repl g @ re_sub pat2 repl (Some (last t)) r"
        using re_sub_match [of pat2 p c cs t g repl] Some tg t d2 by simp
      show ?thesis using a b ih pv Cons by simp
    qed
  qed
qed

lemma pass2_append:
  assumes "\<not> (pre \<noteq> [] \<and> is_word (last pre) \<and> word_after s)"
  shows "pass2 (pre @ s) = pass2 pre @ pass2 s"
proof -
  have "re_sub pat2 repl_prefix (if pre = [] then None else Some (last pre)) s
      = re_sub pat2 repl_prefix None s"
    using assms by (intro re_sub_pat2_prev) auto
  then show ?thesis
    unfolding pass2_def using re_sub_pat2_append [OF assms, of repl_prefix None] by simp
qed

lemma re_sub_pat2_word_run:
  assumes "\<forall>c\<in>set s. is_word c"
    and "word_before p \<or> s \<notin> {''CoreUtils'', ''EmailUtils'', ''AnalysisUtils'', ''DataUtils''}"
  shows "re_sub pat2 repl p s = s"
  using assms
proof (induction s arbitrary: p)
  case Nil
  show ?case by simp
next
  case (Cons c cs)
  have "match_at pat2 p (c # cs) = None"
  proof (rule ccontr)
    assume "match_at pat2 p (c # cs) \<noteq> None"
    then obtain t g where "match_at pat2 p (c # cs) = Some (t, g)" by auto
    from match_at_pat2_prefix [OF this] obtain r
      where xr: "c # cs = t @ r"
        and tok: "t \<in> {''CoreUtils'', ''EmailUtils'', ''AnalysisUtils'', ''DataUtils''}"
        and nb: "\<not> word_before p" and na: "\<not> word_after (drop (length t) (c # cs))"
      by blast
    have dr: "drop (length t) (c # cs) = r" using xr by (metis append_eq_conv_conj)
    show False
    proof (cases "r = []")
      case True
      then have "c # cs = t" using xr by simp
      with tok nb Cons.prems(2) show False by simp
    next
      case False
      then have "hd r \<in> set (c # cs)" unfolding xr by simp
      then have "is_word (hd r)" using Cons.prems(1) by blast
      with False have "word_after r" by (rule word_after_hd)
      with na dr show False by simp
    qed
  qed
  then have "re_sub pat2 repl p (c # cs) = c # re_sub pat2 repl (Some c) cs"
    by (rule re_sub_no_match)
  moreover have "re_sub pat2 repl (Some c) cs = cs"
    using Cons.prems(1) by (intro Cons.IH) simp_all
  ultimately show ?case by simp
qed

lemma re_sub_pat2_no_word:
  assumes "\<forall>c\<in>set s. \<not> is_word c"
  shows "re_sub pat2 repl p s = s"
  using assms
proof (induction s arbitrary: p)
  case Nil
  show ?case by simp
next
  case (Cons c cs)
  have "match_at pat2 p (c # cs) = None"
  proof (rule ccontr)
    assume "match_at pat2 p (c # cs) \<noteq> None"
    then obtain t g where "match_at pat2 p (c # cs) = Some (t, g)" by auto
    from match_at_pat2_prefix [OF this] obtain r
      where "c # cs = t @ r"
        and "t \<in> {''CoreUtils'', ''EmailUtils'', ''AnalysisUtils'', ''DataUtils''}"
      by blast
    then have "word_after (c # cs)"
      using pat2_token_starts_word [of t "c # cs"] by (simp add: prefix_def)
    with Cons.prems show False by simp
  qed
  then have "re_sub pat2 repl p (c # cs) = c # re_sub pat2 repl (Some c) cs"
    by (rule re_sub_no_match)
  with Cons show ?case by simp
qed

lemma pass2_token:
  assumes "t \<in> {''CoreUtils'', ''EmailUtils'', ''AnalysisUtils'', ''DataUtils''}"
  shows "pass2 t = ''Utils_'' @ t"
proof -
  have "pass2 ''CoreUtils'' = ''Utils_'' @ ''CoreUtils''"
    "pass2 ''EmailUtils'' = ''Utils_'' @ ''EmailUtils''"
    "pass2 ''AnalysisUtils'' = ''Utils_'' @ ''AnalysisUtils''"
    "pass2 ''DataUtils'' = ''Utils_'' @ ''DataUtils''"
    by code_simp+
  with assms show ?thesis by (elim insertE emptyE) (simp_all only:)
qed

section \<open>The Reference Updater\<close>

lemma update_file_content_result:
  assumes "files w filename = Some content"
  shows "update_utils_update_file_content filename w =
           Returned (write_file filename (update_content content) w)"
  using assms by (simp add: update_utils_update_file_content_def read_file_def)

lemma pass1_empty_argument:
  assumes "q1 \<in> set quotes" and "q2 \<in> set quotes"
  shows "pass1 (''include('' @ [q1, q2] @ '')'') = ''include('' @ [q1, q2] @ '')''"
proof -
  have 1: "pass1 (''include('' @ [CHR 0x22, CHR 0x22] @ '')'') = ''include('' @ [CHR 0x22, CHR 0x22] @ '')''"
    by code_simp
  have 2: "pass1 (''include('' @ [CHR 0x22, CHR 0x27] @ '')'') = ''include('' @ [CHR 0x22, CHR 0x27] @ '')''"
    by code_simp
  have 3: "pass1 (''include('' @ [CHR 0x27, CHR 0x22] @ '')'') = ''include('' @ [CHR 0x27, CHR 0x22] @ '')''"
    by code_simp
  have 4: "pass1 (''include('' @ [CHR 0x27, CHR 0x27] @ '')'') = ''include('' @ [CHR 0x27, CHR 0x27] @ '')''"
    by code_simp
  from assms have "q1 = CHR 0x22 \<or> q1 = CHR 0x27" and "q2 = CHR 0x22 \<or> q2 = CHR 0x27"
    by (simp_all add: quotes_def)
  then show ?thesis using 1 2 3 4 by (elim disjE) (simp_all only:)
qed

text \<open>
  Claim C6 as the specification words it fails. Not every include call with one quoted
  argument is rewritten: the pattern asks for at least one character between the quotes and
  for no quote character among them, so \<open>include("")\<close> and \<open>include("it's")\<close> are
  left as they are.
\<close>

theorem include_argument_counterexample:
  "pass1 ''include(\"\")'' = ''include(\"\")''
 \<and> pass1 ''include(\"\")'' \<noteq> ''include(\"Utils_\")''
 \<and> pass1 (''include(\"it'' @ [CHR 0x27] @ ''s\")'') = ''include(\"it'' @ [CHR 0x27] @ ''s\")''"
  by code_simp

text \<open>
  Claim C6, amended. Pass 1 rewrites every include call whose quoted argument \<open>X\<close> is
  not empty and holds no quote character, in either kind of quotes, to the call with the
  argument \<open>Utils_X\<close> in double quotes. Before the call stands any text \<open>pre\<close> without
  \<open>include(\<close>, which is kept as it is, and the text after the call is rewritten by the
  same pass. An include call with an empty quoted argument is left unchanged. The witness is
  the example of the specification, with single quotes, alone and inside a statement.
\<close>

theorem pass1_rewrites_include:
  assumes "q1 \<in> set quotes" and "q2 \<in> set quotes"
    and "X \<noteq> []" and "\<forall>c\<in>set X. c \<notin> set quotes"
    and "\<not> sublist ''include('' pre"
  shows "pass1 (pre @ ''include('' @ q1 # X @ q2 # '')'' @ rest) =
           pre @ ''include(\"Utils_'' @ X @ ''\")'' @ pass1 rest
       \<and> pass1 (''include('' @ [q1, q2] @ '')'') = ''include('' @ [q1, q2] @ '')''"
proof
  have "pass1 (pre @ ''include('' @ q1 # X @ q2 # '')'' @ rest) =
      pre @ re_sub pat1 repl_include None (''include('' @ q1 # X @ q2 # '')'' @ rest)"
    unfolding pass1_def using assms(5) by (rule re_sub_pat1_skip)
  then show "pass1 (pre @ ''include('' @ q1 # X @ q2 # '')'' @ rest) =
           pre @ ''include(\"Utils_'' @ X @ ''\")'' @ pass1 rest"
    using pass1_call [OF assms(1-4), of None rest] by simp
next
  show "pass1 (''include('' @ [q1, q2] @ '')'') = ''include('' @ [q1, q2] @ '')''"
    using assms(1,2) by (rule pass1_empty_argument)
qed

theorem pass1_rewrites_include_witness:
  "pass1 (''include('' @ CHR 0x27 # ''Foo'' @ CHR 0x27 # '')'') = ''include(\"Utils_Foo\")''
 \<and> pass1 (''x = include('' @ CHR 0x27 # ''Foo'' @ CHR 0x27 # '');'')
      = ''x = include(\"Utils_Foo\");''
 \<and> pass1 (''include('' @ [CHR 0x27, CHR 0x27] @ '')'') = ''include('' @ [CHR 0x27, CHR 0x27] @ '')''"
proof -
  have e: "pass1 [] = []" "pass1 '';'' = '';''" by (simp_all add: pass1_def match_at_def pat1_def)
  have n: "\<not> sublist ''include('' ''x = ''" by (simp add: sublist_Cons_right)
  show ?thesis
    using pass1_rewrites_include [of "CHR 0x27" "CHR 0x27" "''Foo''" "[]" "[]"]
      pass1_rewrites_include [of "CHR 0x27" "CHR 0x27" "''Foo''" "''x = ''" "'';''"] e n
    by (simp add: quotes_def)
qed

text \<open>
  Claim C3 as the specification words it fails. The pattern has a class of both quote
  characters on each side of the argument and does not ask the closing quote to be the
  opening one: an include call that opens with a double quote and closes with a single
  quote is matched and rewritten.
\<close>

theorem mismatched_quotes_counterexample:
  "match_at pat1 None (''include(\"Foo'' @ [CHR 0x27] @ '')'')
     = Some (''include(\"Foo'' @ [CHR 0x27] @ '')'', Some ''Foo'')
 \<and> pass1 (''include(\"Foo'' @ [CHR 0x27] @ '')'') = ''include(\"Utils_Foo\")''
 \<and> pass1 (''include(\"Foo'' @ [CHR 0x27] @ '')'') \<noteq> ''include(\"Foo'' @ [CHR 0x27] @ '')''"
  by code_simp

text \<open>
  Claim C3, amended. An include call whose opening and closing quotes are different quote
  characters, and whose argument is not empty and holds no quote character, is matched and
  rewritten like any other, with the argument in double quotes. What Pass 1 leaves
  unchanged is a text with fewer than two quote characters, such as a call whose closing
  quote is missing.
\<close>

theorem pass1_quote_pairing:
  "(q1 \<in> set quotes \<and> q2 \<in> set quotes \<and> q1 \<noteq> q2 \<and> X \<noteq> [] \<and> (\<forall>c\<in>set X. c \<notin> set quotes) \<longrightarrow>
      pass1 (''include('' @ q1 # X @ q2 # '')'') = ''include(\"Utils_'' @ X @ ''\")'')
 \<and> (length (filter (\<lambda>c. c \<in> set quotes) s) < 2 \<longrightarrow> pass1 s = s)"
proof (intro conjI impI)
  assume h: "q1 \<in> set quotes \<and> q2 \<in> set quotes \<and> q1 \<noteq> q2 \<and> X \<noteq> [] \<and> (\<forall>c\<in>set X. c \<notin> set quotes)"
  have "pass1 [] = []" by (simp add: pass1_def)
  then show "pass1 (''include('' @ q1 # X @ q2 # '')'') = ''include(\"Utils_'' @ X @ ''\")''"
    unfolding pass1_def
    using pass1_call [of q1 q2 X None "[]"] h by (simp add: pass1_def)
next
  assume "length (filter (\<lambda>c. c \<in> set quotes) s) < 2"
  then show "pass1 s = s" unfolding pass1_def by (rule re_sub_pat1_few_quotes)
qed

theorem pass1_quote_pairing_witness:
  "pass1 (''include('' @ CHR ''\"'' # ''Foo'' @ CHR 0x27 # '')'') = ''include(\"Utils_Foo\")''
 \<and> pass1 ''include(\"Foo)'' = ''include(\"Foo)''"
  using pass1_quote_pairing [of "CHR ''\"''" "CHR 0x27" "''Foo''" "''include(\"Foo)''"]
  by (simp add: quotes_def)

text \<open>
  Claim C7. Pass 2 turns the text \<open>CoreUtils\<close> into \<open>Utils_CoreUtils\<close> and leaves
  \<open>MyCoreUtilsExtra\<close> unchanged, and so does the whole update. In general the pattern of
  Pass 2 matches at a position exactly when one of the four identifiers starts there, no word
  character stands before it and none after it; the matched text and group 1 are that
  identifier. For Pass 2 itself, on every text: each of the four identifiers, standing
  alone, gets the prefix \<open>Utils_\<close>; a run of word characters that is not one of the four
  is unchanged, whatever it contains; a text without word characters is unchanged; and a
  text cut anywhere but inside a word is rewritten part by part. Every text is made of runs
  of word characters and the text between them, so these four facts fix the result of
  Pass 2 on it.
\<close>

theorem pass2_standalone_tokens:
  "pass2 ''CoreUtils'' = ''Utils_CoreUtils''
 \<and> pass2 ''MyCoreUtilsExtra'' = ''MyCoreUtilsExtra''
 \<and> update_content ''CoreUtils'' = ''Utils_CoreUtils''
 \<and> update_content ''MyCoreUtilsExtra'' = ''MyCoreUtilsExtra''
 \<and> (match_at pat2 p s = Some (t, g) \<longleftrightarrow>
       t \<in> {''CoreUtils'', ''EmailUtils'', ''AnalysisUtils'', ''DataUtils''}
     \<and> g = Some t \<and> prefix t s \<and> \<not> word_before p \<and> \<not> word_after (drop (length t) s))
 \<and> (\<forall>tok\<in>{''CoreUtils'', ''EmailUtils'', ''AnalysisUtils'', ''DataUtils''}.
       pass2 tok = ''Utils_'' @ tok)
 \<and> ((\<forall>c\<in>set word. is_word c)
       \<and> word \<notin> {''CoreUtils'', ''EmailUtils'', ''AnalysisUtils'', ''DataUtils''}
     \<longrightarrow> pass2 word = word)
 \<and> ((\<forall>c\<in>set gap. \<not> is_word c) \<longrightarrow> pass2 gap = gap)
 \<and> (\<not> (pre \<noteq> [] \<and> is_word (last pre) \<and> word_after post)
     \<longrightarrow> pass2 (pre @ post) = pass2 pre @ pass2 post)"
proof -
  have 1: "pass2 ''CoreUtils'' = ''Utils_CoreUtils''" by code_simp
  have 2: "pass2 ''MyCoreUtilsExtra'' = ''MyCoreUtilsExtra''" by code_simp
  have 3: "update_content ''CoreUtils'' = ''Utils_CoreUtils''" by code_simp
  have 4: "update_content ''MyCoreUtilsExtra'' = ''MyCoreUtilsExtra''" by code_simp
  have 5: "\<forall>tok\<in>{''CoreUtils'', ''EmailUtils'', ''AnalysisUtils'', ''DataUtils''}.
       pass2 tok = ''Utils_'' @ tok"
    using pass2_token by blast
  have 6: "(\<forall>c\<in>set word. is_word c)
       \<and> word \<notin> {''CoreUtils'', ''EmailUtils'', ''AnalysisUtils'', ''DataUtils''}
     \<longrightarrow> pass2 word = word"
    unfolding pass2_def using re_sub_pat2_word_run [of word None repl_prefix] by blast
  have 7: "(\<forall>c\<in>set gap. \<not> is_word c) \<longrightarrow> pass2 gap = gap"
    unfolding pass2_def using re_sub_pat2_no_word [of gap repl_prefix None] by blast
  have 8: "\<not> (pre \<noteq> [] \<and> is_word (last pre) \<and> word_after post)
     \<longrightarrow> pass2 (pre @ post) = pass2 pre @ pass2 post"
    using pass2_append [of pre post] by blast
  show ?thesis
    by (rule conjI [OF 1 conjI [OF 2 conjI [OF 3 conjI [OF 4
          conjI [OF match_at_pat2_iff conjI [OF 5 conjI [OF 6 conjI [OF 7 8]]]]]]]])
qed

theorem pass2_standalone_tokens_witness:
  "pass2 ''DataUtils'' = ''Utils_DataUtils''
 \<and> pass2 ''MyEmailUtils'' = ''MyEmailUtils''
 \<and> pass2 ''= CoreUtils.'' = ''= Utils_CoreUtils.''
 \<and> match_at pat2 (Some CHR '' '') ''DataUtils.formatDate''
     = Some (''DataUtils'', Some ''DataUtils'')"
proof -
  note T = pass2_standalone_tokens
    [where p = "Some CHR '' ''" and s = "''DataUtils.formatDate''" and t = "''DataUtils''"
      and g = "Some ''DataUtils''" and word = "''MyEmailUtils''" and gap = "''= ''"
      and pre = "''= ''" and post = "''CoreUtils.''"]
  note U = pass2_standalone_tokens
    [where p = None and s = "[]" and t = "[]" and g = None and word = "[]" and gap = "''.''"
      and pre = "''CoreUtils''" and post = "''.''"]
  have w: "\<forall>c\<in>set ''MyEmailUtils''. is_word c" by (simp add: is_word_def)
  have n1: "\<forall>c\<in>set ''= ''. \<not> is_word c" by (simp add: is_word_def)
  have n2: "\<forall>c\<in>set ''.''. \<not> is_word c" by (simp add: is_word_def)
  have b1: "\<not> (''= '' \<noteq> [] \<and> is_word (last ''= '') \<and> word_after ''CoreUtils.'')"
    by (simp add: is_word_def)
  have b2: "\<not> (''CoreUtils'' \<noteq> [] \<and> is_word (last ''CoreUtils'') \<and> word_after ''.'')"
    by (simp add: is_word_def)
  have a: "pass2 ''DataUtils'' = ''Utils_DataUtils''"
    and c: "pass2 ''CoreUtils'' = ''Utils_CoreUtils''"
    using T by simp_all
  have b: "pass2 ''MyEmailUtils'' = ''MyEmailUtils''" using T w by simp
  have g1: "pass2 ''= '' = ''= ''" using T n1 by blast
  have g2: "pass2 ''.'' = ''.''" using U n2 by blast
  have s1: "pass2 (''= '' @ ''CoreUtils.'') = pass2 ''= '' @ pass2 ''CoreUtils.''"
    using T b1 by blast
  have s2: "pass2 (''CoreUtils'' @ ''.'') = pass2 ''CoreUtils'' @ pass2 ''.''"
    using U b2 by blast
  have d: "pass2 ''= CoreUtils.'' = ''= Utils_CoreUtils.''"
    using s1 s2 g1 g2 c by simp
  have m: "match_at pat2 (Some CHR '' '') ''DataUtils.formatDate''
     = Some (''DataUtils'', Some ''DataUtils'')"
    using T by (simp add: is_word_def)
  from a b d m show ?thesis by (intro conjI)
qed

text \<open>
  Claim C1 as the specification words it fails. The first update of a file that holds
  \<open>CoreUtils\<close> writes \<open>Utils_CoreUtils\<close>; the second update does not write
  \<open>Utils_Utils_CoreUtils\<close>. The underscore is a word character, so in
  \<open>Utils_CoreUtils\<close> no word boundary stands before \<open>CoreUtils\<close>.
\<close>

theorem update_twice_counterexample:
  "update_utils_update_file_content ''Code.gs'' \<lparr>files = [''Code.gs'' \<mapsto> ''CoreUtils''], out = []\<rparr>
     = Returned \<lparr>files = [''Code.gs'' \<mapsto> ''Utils_CoreUtils''], out = []\<rparr>
 \<and> update_utils_update_file_content ''Code.gs'' \<lparr>files = [''Code.gs'' \<mapsto> ''Utils_CoreUtils''], out = []\<rparr>
     \<noteq> Returned \<lparr>files = [''Code.gs'' \<mapsto> ''Utils_Utils_CoreUtils''], out = []\<rparr>"
proof -
  have 1: "update_content ''CoreUtils'' = ''Utils_CoreUtils''" by code_simp
  have 2: "update_content ''Utils_CoreUtils'' = ''Utils_CoreUtils''" by code_simp
  have "[''Code.gs'' \<mapsto> ''Utils_CoreUtils''] \<noteq> [''Code.gs'' \<mapsto> ''Utils_Utils_CoreUtils'']"
  proof
    assume "[''Code.gs'' \<mapsto> ''Utils_CoreUtils''] = [''Code.gs'' \<mapsto> ''Utils_Utils_CoreUtils'']"
    then have "[''Code.gs'' \<mapsto> ''Utils_CoreUtils''] ''Code.gs''
        = [''Code.gs'' \<mapsto> ''Utils_Utils_CoreUtils''] ''Code.gs''"
      by (rule arg_cong)
    then show False by simp
  qed
  then show ?thesis
    by (simp add: update_utils_update_file_content_def read_file_def write_file_def 1 2)
qed

text \<open>
  Claim C1, amended. For a file that holds the token \<open>CoreUtils\<close>, one update writes
  \<open>Utils_CoreUtils\<close> and a second update leaves that content as it is. The update is
  not idempotent all the same: the prefix is injected again in the argument of an include
  call, where \<open>include("Foo")\<close> becomes \<open>include("Utils_Foo")\<close> and then
  \<open>include("Utils_Utils_Foo")\<close>.
\<close>

theorem update_file_content_rerun:
  "(files w f = Some ''CoreUtils'' \<longrightarrow>
      update_utils_update_file_content f w = Returned (write_file f ''Utils_CoreUtils'' w)
    \<and> and_then (update_utils_update_file_content f w) (update_utils_update_file_content f)
        = Returned (write_file f ''Utils_CoreUtils'' w))
 \<and> (files w f = Some ''include(\"Foo\")'' \<longrightarrow>
      update_utils_update_file_content f w = Returned (write_file f ''include(\"Utils_Foo\")'' w)
    \<and> and_then (update_utils_update_file_content f w) (update_utils_update_file_content f)
        = Returned (write_file f ''include(\"Utils_Utils_Foo\")'' w))"
proof -
  have 1: "update_content ''CoreUtils'' = ''Utils_CoreUtils''" by code_simp
  have 2: "update_content ''Utils_CoreUtils'' = ''Utils_CoreUtils''" by code_simp
  have 3: "update_content ''include(\"Foo\")'' = ''include(\"Utils_Foo\")''" by code_simp
  have 4: "update_content ''include(\"Utils_Foo\")'' = ''include(\"Utils_Utils_Foo\")''"
    by code_simp
  show ?thesis
    by (simp add: update_file_content_result files_write_file write_file_twice 1 2 3 4)
qed

theorem update_file_content_rerun_witness:
  "update_utils_update_file_content ''Code.gs'' \<lparr>files = [''Code.gs'' \<mapsto> ''CoreUtils''], out = []\<rparr>
   = Returned \<lparr>files = [''Code.gs'' \<mapsto> ''Utils_CoreUtils''], out = []\<rparr>
 \<and> and_then
     (update_utils_update_file_content ''Code.gs'' \<lparr>files = [''Code.gs'' \<mapsto> ''CoreUtils''], out = []\<rparr>)
     (update_utils_update_file_content ''Code.gs'')
   = Returned \<lparr>files = [''Code.gs'' \<mapsto> ''Utils_CoreUtils''], out = []\<rparr>
 \<and> update_utils_update_file_content ''Code.gs'' \<lparr>files = [''Code.gs'' \<mapsto> ''include(\"Foo\")''], out = []\<rparr>
   = Returned \<lparr>files = [''Code.gs'' \<mapsto> ''include(\"Utils_Foo\")''], out = []\<rparr>
 \<and> and_then
     (update_utils_update_file_content ''Code.gs'' \<lparr>files = [''Code.gs'' \<mapsto> ''include(\"Foo\")''], out = []\<rparr>)
     (update_utils_update_file_content ''Code.gs'')
   = Returned \<lparr>files = [''Code.gs'' \<mapsto> ''include(\"Utils_Utils_Foo\")''], out = []\<rparr>"
proof -
  have a: "files \<lparr>files = [''Code.gs'' \<mapsto> ''CoreUtils''], out = []\<rparr> ''Code.gs'' = Some ''CoreUtils''"
    by simp
  have b: "files \<lparr>files = [''Code.gs'' \<mapsto> ''include(\"Foo\")''], out = []\<rparr> ''Code.gs''
             = Some ''include(\"Foo\")''"
    by simp
  from update_file_content_rerun [of "\<lparr>files = [''Code.gs'' \<mapsto> ''CoreUtils''], out = []\<rparr>" "''Code.gs''"] a
  have 1: "update_utils_update_file_content ''Code.gs'' \<lparr>files = [''Code.gs'' \<mapsto> ''CoreUtils''], out = []\<rparr>
      = Returned (write_file ''Code.gs'' ''Utils_CoreUtils'' \<lparr>files = [''Code.gs'' \<mapsto> ''CoreUtils''], out = []\<rparr>)"
    and 2: "and_then
     (update_utils_update_file_content ''Code.gs'' \<lparr>files = [''Code.gs'' \<mapsto> ''CoreUtils''], out = []\<rparr>)
     (update_utils_update_file_content ''Code.gs'')
      = Returned (write_file ''Code.gs'' ''Utils_CoreUtils'' \<lparr>files = [''Code.gs'' \<mapsto> ''CoreUtils''], out = []\<rparr>)"
    by blast+
  from update_file_content_rerun [of "\<lparr>files = [''Code.gs'' \<mapsto> ''include(\"Foo\")''], out = []\<rparr>" "''Code.gs''"] b
  have 3: "update_utils_update_file_content ''Code.gs'' \<lparr>files = [''Code.gs'' \<mapsto> ''include(\"Foo\")''], out = []\<rparr>
      = Returned (write_file ''Code.gs'' ''include(\"Utils_Foo\")'' \<lparr>files = [''Code.gs'' \<mapsto> ''include(\"Foo\")''], out = []\<rparr>)"
    and 4: "and_then
     (update_utils_update_file_content ''Code.gs'' \<lparr>files = [''Code.gs'' \<mapsto> ''include(\"Foo\")''], out = []\<rparr>)
     (update_utils_update_file_content ''Code.gs'')
      = Returned (write_file ''Code.gs'' ''include(\"Utils_Utils_Foo\")'' \<lparr>files = [''Code.gs'' \<mapsto> ''include(\"Foo\")''], out = []\<rparr>)"
    by blast+
  have e1: "write_file ''Code.gs'' ''Utils_CoreUtils'' \<lparr>files = [''Code.gs'' \<mapsto> ''CoreUtils''], out = []\<rparr>
      = \<lparr>files = [''Code.gs'' \<mapsto> ''Utils_CoreUtils''], out = []\<rparr>"
    by (simp add: write_file_def)
  have e3: "write_file ''Code.gs'' ''include(\"Utils_Foo\")'' \<lparr>files = [''Code.gs'' \<mapsto> ''include(\"Foo\")''], out = []\<rparr>
      = \<lparr>files = [''Code.gs'' \<mapsto> ''include(\"Utils_Foo\")''], out = []\<rparr>"
    by (simp add: write_file_def)
  have e4: "write_file ''Code.gs'' ''include(\"Utils_Utils_Foo\")'' \<lparr>files = [''Code.gs'' \<mapsto> ''include(\"Foo\")''], out = []\<rparr>
      = \<lparr>files = [''Code.gs'' \<mapsto> ''include(\"Utils_Utils_Foo\")''], out = []\<rparr>"
    by (simp add: write_file_def)
  show ?thesis
    by (rule conjI [OF 1 [unfolded e1] conjI [OF 2 [unfolded e1] conjI [OF 3 [unfolded e3] 4 [unfolded e4]]]])
qed

section \<open>The scripts that walk the file list\<close>

lemma distinct_files_to_update: "distinct files_to_update"
  by (simp add: files_to_update_def)

lemma update_each_result:
  assumes upd: "\<And>f w c. files w f = Some c \<Longrightarrow> upd f w = Returned (write_file f (g c) w)"
    and "distinct fs"
  shows "update_each upd fs w =
           Returned (w\<lparr>files := (\<lambda>f. if f \<in> set fs then map_option g (files w f) else files w f),
                       out := out w @ map (\<lambda>f. ''Updated: '' @ f) (filter (\<lambda>f. files w f \<noteq> None) fs)\<rparr>)"
  using assms(2)
proof (induction fs arbitrary: w)
  case Nil
  show ?case by simp
next
  case (Cons f fs)
  from Cons.prems have nf: "f \<notin> set fs" and d: "distinct fs" by simp_all
  show ?case
  proof (cases "files w f")
    case None
    then have "update_each upd (f # fs) w = update_each upd fs w"
      by (simp add: os_path_exists_def)
    also have "\<dots> = Returned (w\<lparr>files := (\<lambda>x. if x \<in> set fs then map_option g (files w x) else files w x),
        out := out w @ map (\<lambda>f. ''Updated: '' @ f) (filter (\<lambda>f. files w f \<noteq> None) fs)\<rparr>)"
      by (rule Cons.IH [OF d])
    also have "(\<lambda>x. if x \<in> set fs then map_option g (files w x) else files w x)
        = (\<lambda>x. if x \<in> set (f # fs) then map_option g (files w x) else files w x)"
      using None by (auto simp: fun_eq_iff)
    finally show ?thesis using None by simp
  next
    case (Some c)
    let ?w2 = "print (''Updated: '' @ f) (write_file f (g c) w)"
    have same: "files ?w2 x = files w x" if "x \<in> set fs" for x
      using that nf by (auto simp: print_def write_file_def)
    have "update_each upd (f # fs) w = update_each upd fs ?w2"
      using Some upd [OF Some] by (simp add: os_path_exists_def)
    also have "\<dots> = Returned (?w2\<lparr>files := (\<lambda>x. if x \<in> set fs then map_option g (files ?w2 x) else files ?w2 x),
        out := out ?w2 @ map (\<lambda>f. ''Updated: '' @ f) (filter (\<lambda>f. files ?w2 f \<noteq> None) fs)\<rparr>)"
      by (rule Cons.IH [OF d])
    also have "filter (\<lambda>f. files ?w2 f \<noteq> None) fs = filter (\<lambda>f. files w f \<noteq> None) fs"
      using same by (intro filter_cong) auto
    also have "(\<lambda>x. if x \<in> set fs then map_option g (files ?w2 x) else files ?w2 x)
        = (\<lambda>x. if x \<in> set (f # fs) then map_option g (files w x) else files w x)"
      using same Some nf by (auto simp: fun_eq_iff print_def write_file_def)
    finally show ?thesis using Some by (simp add: print_def write_file_def)
  qed
qed

lemma Utils_Main_not_listed: "''Utils_Main.gs'' \<notin> set files_to_update"
  by (simp add: files_to_update_def)

text \<open>
  Claim C9. Both loops over \<open>files_to_update\<close> return without an exception for every
  file store. They print one line \<open>Updated: name\<close> for each listed name that exists, in
  the order of the list, and no line for a listed name that does not exist; each listed file
  that exists holds its updated content afterwards, a listed name that does not exist is not
  created, and every other file is as before. In remove\_facade.py the only exception is the
  one of the deletion of \<open>Utils_Main.gs\<close> after the loop, when that file does not exist;
  the lines are printed by then.
\<close>

theorem list_scripts_skip_missing:
  "(\<exists>w'. update_utils_script w = Returned w'
      \<and> out w' = out w @ map (\<lambda>f. ''Updated: '' @ f)
                           (filter (\<lambda>f. files w f \<noteq> None) files_to_update)
      \<and> (\<forall>f. files w' f =
            (if f \<in> set files_to_update then map_option update_content (files w f)
             else files w f)))
 \<and> (\<exists>w'. update_each remove_facade_update_file_content files_to_update w = Returned w'
      \<and> out w' = out w @ map (\<lambda>f. ''Updated: '' @ f)
                           (filter (\<lambda>f. files w f \<noteq> None) files_to_update)
      \<and> (\<forall>f. files w' f =
            (if f \<in> set files_to_update
             then map_option (\<lambda>c. str_replace c ''Utils_Main'' '''') (files w f)
             else files w f))
      \<and> remove_facade_script w =
          (if files w ''Utils_Main.gs'' = None
           then Raised (FileNotFoundError ''Utils_Main.gs'') w'
           else Returned (w'\<lparr>files := (files w')(''Utils_Main.gs'' := None)\<rparr>)))"
proof (intro conjI)
  have "update_utils_script w =
      Returned (w\<lparr>files := (\<lambda>f. if f \<in> set files_to_update
                                then map_option update_content (files w f) else files w f),
                 out := out w @ map (\<lambda>f. ''Updated: '' @ f)
                           (filter (\<lambda>f. files w f \<noteq> None) files_to_update)\<rparr>)"
    unfolding update_utils_script_def
    using update_file_content_result distinct_files_to_update
    by (rule update_each_result)
  then show "\<exists>w'. update_utils_script w = Returned w'
      \<and> out w' = out w @ map (\<lambda>f. ''Updated: '' @ f)
                           (filter (\<lambda>f. files w f \<noteq> None) files_to_update)
      \<and> (\<forall>f. files w' f =
            (if f \<in> set files_to_update then map_option update_content (files w f)
             else files w f))"
    by simp
next
  let ?g = "\<lambda>c. str_replace c ''Utils_Main'' ''''"
  let ?w' = "w\<lparr>files := (\<lambda>f. if f \<in> set files_to_update
                                then map_option ?g (files w f) else files w f),
                 out := out w @ map (\<lambda>f. ''Updated: '' @ f)
                           (filter (\<lambda>f. files w f \<noteq> None) files_to_update)\<rparr>"
  have loop: "update_each remove_facade_update_file_content files_to_update w = Returned ?w'"
    using remove_facade_update_result distinct_files_to_update
    by (rule update_each_result [where g = ?g])
  have "remove_facade_script w = os_remove ''Utils_Main.gs'' ?w'"
    by (simp add: remove_facade_script_def loop)
  also have "\<dots> = (if files w ''Utils_Main.gs'' = None
           then Raised (FileNotFoundError ''Utils_Main.gs'') ?w'
           else Returned (?w'\<lparr>files := (files ?w')(''Utils_Main.gs'' := None)\<rparr>))"
    using Utils_Main_not_listed by (auto simp: os_remove_def split: option.splits)
  finally have "remove_facade_script w = (if files w ''Utils_Main.gs'' = None
           then Raised (FileNotFoundError ''Utils_Main.gs'') ?w'
           else Returned (?w'\<lparr>files := (files ?w')(''Utils_Main.gs'' := None)\<rparr>))" .
  with loop show "\<exists>w'. update_each remove_facade_update_file_content files_to_update w = Returned w'
      \<and> out w' = out w @ map (\<lambda>f. ''Updated: '' @ f)
                           (filter (\<lambda>f. files w f \<noteq> None) files_to_update)
      \<and> (\<forall>f. files w' f =
            (if f \<in> set files_to_update
             then map_option (\<lambda>c. str_replace c ''Utils_Main'' '''') (files w f)
             else files w f))
      \<and> remove_facade_script w =
          (if files w ''Utils_Main.gs'' = None
           then Raised (FileNotFoundError ''Utils_Main.gs'') w'
           else Returned (w'\<lparr>files := (files w')(''Utils_Main.gs'' := None)\<rparr>))"
    by (intro exI [of _ ?w']) simp
qed

theorem list_scripts_skip_missing_witness:
  "out (world_of (update_utils_script
      \<lparr>files = [''Config.gs'' \<mapsto> ''CoreUtils.x'', ''Setup.gs'' \<mapsto> ''Utils_Main.y'', ''Utils_Main.gs'' \<mapsto> ''z''], out = []\<rparr>))
     = [''Updated: Config.gs'', ''Updated: Setup.gs'']
 \<and> files (world_of (update_utils_script
      \<lparr>files = [''Config.gs'' \<mapsto> ''CoreUtils.x'', ''Setup.gs'' \<mapsto> ''Utils_Main.y'', ''Utils_Main.gs'' \<mapsto> ''z''], out = []\<rparr>))
      ''Code.gs'' = None
 \<and> out (world_of (remove_facade_script
      \<lparr>files = [''Config.gs'' \<mapsto> ''CoreUtils.x'', ''Setup.gs'' \<mapsto> ''Utils_Main.y'', ''Utils_Main.gs'' \<mapsto> ''z''], out = []\<rparr>))
     = [''Updated: Config.gs'', ''Updated: Setup.gs'']
 \<and> files (world_of (remove_facade_script
      \<lparr>files = [''Config.gs'' \<mapsto> ''CoreUtils.x'', ''Setup.gs'' \<mapsto> ''Utils_Main.y'', ''Utils_Main.gs'' \<mapsto> ''z''], out = []\<rparr>))
      ''Code.gs'' = None
 \<and> (\<exists>w'. remove_facade_script
      \<lparr>files = [''Config.gs'' \<mapsto> ''CoreUtils.x'', ''Setup.gs'' \<mapsto> ''Utils_Main.y'', ''Utils_Main.gs'' \<mapsto> ''z''], out = []\<rparr>
      = Returned w')"
proof -
  let ?w = "\<lparr>files = [''Config.gs'' \<mapsto> ''CoreUtils.x'', ''Setup.gs'' \<mapsto> ''Utils_Main.y'', ''Utils_Main.gs'' \<mapsto> ''z''], out = []\<rparr>"
  have f: "filter (\<lambda>f. files ?w f \<noteq> None) files_to_update = [''Config.gs'', ''Setup.gs'']"
    by (simp add: files_to_update_def)
  from list_scripts_skip_missing [of ?w] obtain w1 w2 where
    1: "update_utils_script ?w = Returned w1"
      "out w1 = out ?w @ map (\<lambda>f. ''Updated: '' @ f) (filter (\<lambda>f. files ?w f \<noteq> None) files_to_update)"
      "\<forall>f. files w1 f = (if f \<in> set files_to_update then map_option update_content (files ?w f)
             else files ?w f)" and
    2: "out w2 = out ?w @ map (\<lambda>f. ''Updated: '' @ f) (filter (\<lambda>f. files ?w f \<noteq> None) files_to_update)"
      "\<forall>f. files w2 f = (if f \<in> set files_to_update
             then map_option (\<lambda>c. str_replace c ''Utils_Main'' '''') (files ?w f)
             else files ?w f)"
      "remove_facade_script ?w =
          (if files ?w ''Utils_Main.gs'' = None
           then Raised (FileNotFoundError ''Utils_Main.gs'') w2
           else Returned (w2\<lparr>files := (files w2)(''Utils_Main.gs'' := None)\<rparr>))"
    by blast
  have r: "remove_facade_script ?w = Returned (w2\<lparr>files := (files w2)(''Utils_Main.gs'' := None)\<rparr>)"
    using 2(3) by simp
  have a: "out w1 = [''Updated: Config.gs'', ''Updated: Setup.gs'']"
    using 1(2) unfolding f by simp
  have b: "out w2 = [''Updated: Config.gs'', ''Updated: Setup.gs'']"
    using 2(1) unfolding f by simp
  have c: "files w1 ''Code.gs'' = None" using 1(3) by simp
  have d: "files w2 ''Code.gs'' = None" using 2(2) by simp
  show ?thesis unfolding 1(1) r using a b c d by simp
qed

end
